theory Spec2Isabelle
  imports Main "HOL-Library.Word" "HOL-Library.Multiset" "HOL-Library.Sublist"
begin

chapter \<open>White-noise transmitter scripts: sample generation, interleaving, streaming\<close>

text \<open>
  The repository holds three scripts: \<^verbatim>\<open>transmit_gps_l5.py\<close> (one transmit channel) and
  \<^verbatim>\<open>transmit_gps_l1_l2_dual.py\<close>, \<^verbatim>\<open>transmit_gps_l2_l5_dual.py\<close> (two channels; the two
  files differ in their frequency constants, comments and messages only).  Each script
  defines \<^verbatim>\<open>generate_white_noise\<close> and \<^verbatim>\<open>main\<close>; the dual scripts also define
  \<^verbatim>\<open>configure_channel\<close>.  The Python functions are embedded as HOL functions of the same
  name.  Printing and \<^verbatim>\<open>time.sleep\<close> have no counterpart.
\<close>

section \<open>Exceptions and machine integers\<close>

text \<open>
  \<^verbatim>\<open>BladeRFError\<close> is what a failing device call raises; \<^verbatim>\<open>ValueError\<close> is what numpy
  raises for a negative size or for a strided assignment whose shapes do not match.
  Arrays of \<^verbatim>\<open>dtype=np.int16\<close> are lists of 16-bit words, read as signed by \<open>sint\<close>.
\<close>

datatype exn = BladeRFError | ValueError

type_synonym int16 = "16 word"

section \<open>The random source\<close>

text \<open>
  \<^verbatim>\<open>np.random\<close> is a global generator.  Its state is a stream of raw natural numbers, one
  per value drawn; \<open>advance n\<close> is the state after \<open>n\<close> draws.  numpy's contract for
  \<^verbatim>\<open>randint(low, high)\<close> is a value in the half-open range from \<open>low\<close> to \<open>high\<close>;
  \<open>uniform_draw\<close> maps a raw number into that range, and every value of the range is the
  image of some raw number, so every behaviour the contract allows is covered.
\<close>

type_synonym rng = "nat \<Rightarrow> nat"

definition advance :: "nat \<Rightarrow> rng \<Rightarrow> rng" where
  "advance n g = (\<lambda>k. g (k + n))"

definition uniform_draw :: "int \<Rightarrow> int \<Rightarrow> nat \<Rightarrow> int" where
  "uniform_draw low high x = low + int x mod (high - low)"

text \<open>
  \<^verbatim>\<open>np.random.randint(low, high, size, dtype=np.int16)\<close>: an array of \<open>size\<close> draws.
  numpy raises \<^verbatim>\<open>ValueError\<close> for a negative size, an empty range, or bounds outside the
  dtype.
\<close>

definition randint :: "int \<Rightarrow> int \<Rightarrow> int \<Rightarrow> rng \<Rightarrow> exn + (int16 list \<times> rng)" where
  "randint low high sz g =
     (if sz < 0 \<or> high \<le> low \<or> low < - 32768 \<or> 32768 < high then Inl ValueError
      else Inr (map (\<lambda>k. word_of_int (uniform_draw low high (g k))) [0..<nat sz],
                advance (nat sz) g))"

text \<open>
  \<^verbatim>\<open>np.random.randint(0, 100)\<close> in the single-channel loop: one draw, returned as a Python
  integer.  The range is not empty at the only call site.
\<close>

definition randint_scalar :: "int \<Rightarrow> int \<Rightarrow> rng \<Rightarrow> int \<times> rng" where
  "randint_scalar low high g = (uniform_draw low high (g 0), advance 1 g)"

section \<open>Scaling by 0.95 in double precision\<close>

text \<open>
  \<^verbatim>\<open>(i_samples * 0.95).astype(np.int16)\<close> multiplies an \<^verbatim>\<open>int16\<close> array by a Python float:
  numpy computes the product in IEEE 754 binary64 and the cast truncates toward zero.

  The literal \<^verbatim>\<open>0.95\<close> denotes the double nearest to 0.95, which is
  \<open>8556839292003942 / 2 ^ 53\<close> (hexadecimal \<^verbatim>\<open>0x1.e666666666666p-1\<close>).  An \<^verbatim>\<open>int16\<close> value
  \<open>v\<close> converts to a double exactly.  The exact product is \<open>v * 8556839292003942 / 2 ^ 53\<close>;
  the binary64 product is that number rounded to 53 significant bits, ties to even.  For
  \<open>v \<noteq> 0\<close> the product has magnitude at least \<open>2 ^ 53 div 2\<close> over \<open>2 ^ 53\<close> and far below
  the overflow threshold, so the result is a multiple of \<open>1 / 2 ^ 53\<close>: a double in this
  range is represented by its integer numerator over \<open>2 ^ 53\<close>.
\<close>

definition f64_095 :: int where
  "f64_095 = 8556839292003942"

text \<open>The number of bits of a positive integer (Python's \<^verbatim>\<open>int.bit_length\<close>).\<close>

function bit_length :: "int \<Rightarrow> nat" where
  "bit_length p = (if p \<le> 0 then 0 else Suc (bit_length (p div 2)))"
  by pat_completeness auto
termination
  by (relation "measure nat") auto

declare bit_length.simps [simp del]

text \<open>\<open>p / 2 ^ e\<close> rounded to the nearest integer, ties to the even neighbour.\<close>

definition round_half_even :: "int \<Rightarrow> nat \<Rightarrow> int" where
  "round_half_even p e =
     (let q = p div 2 ^ e; r = p mod 2 ^ e
      in if 2 * r < 2 ^ e then q
         else if 2 ^ e < 2 * r then q + 1
         else if even q then q else q + 1)"

text \<open>
  A non-negative numerator rounded to 53 significant bits: the low
  \<open>bit_length p - 53\<close> bits are rounded away (none when \<open>p\<close> has at most 53 bits).
\<close>

definition round_to_f64 :: "int \<Rightarrow> int" where
  "round_to_f64 p = (let e = bit_length p - 53 in round_half_even p e * 2 ^ e)"

text \<open>
  The binary64 product \<^verbatim>\<open>w * 0.95\<close>, as a numerator over \<open>2 ^ 53\<close>.  IEEE rounding is
  symmetric in the sign, so the magnitude is rounded and the sign restored.
\<close>

definition mul_095 :: "int16 \<Rightarrow> int" where
  "mul_095 w = sgn (sint w) * round_to_f64 (\<bar>sint w\<bar> * f64_095)"

text \<open>
  \<^verbatim>\<open>.astype(np.int16)\<close> on a double given by its numerator over \<open>2 ^ 53\<close>: truncation toward
  zero, then the 16-bit representation.
\<close>

definition astype_int16 :: "int \<Rightarrow> int16" where
  "astype_int16 x = word_of_int (sgn x * (\<bar>x\<bar> div 2 ^ 53))"

definition scale_samples :: "int16 list \<Rightarrow> int16 list" where
  "scale_samples xs = map (\<lambda>w. astype_int16 (mul_095 w)) xs"

section \<open>numpy arrays: allocation and strided slices\<close>

text \<open>
  \<^verbatim>\<open>np.empty(n)\<close> allocates without initialising: the contents are whatever the memory
  held, given here by \<open>junk\<close>.
\<close>

definition np_empty :: "nat \<Rightarrow> (nat \<Rightarrow> 'a) \<Rightarrow> 'a list" where
  "np_empty n junk = map junk [0..<n]"

text \<open>The number of indices \<open>start, start + step, \<dots>\<close> below \<open>n\<close>: the length of \<^verbatim>\<open>a[start::step]\<close>.\<close>

definition slice_len :: "nat \<Rightarrow> nat \<Rightarrow> nat \<Rightarrow> nat" where
  "slice_len n start step = (if start < n then (n - start + step - 1) div step else 0)"

text \<open>Reading \<^verbatim>\<open>buf[start::step]\<close>.\<close>

definition get_strided :: "'a list \<Rightarrow> nat \<Rightarrow> nat \<Rightarrow> 'a list" where
  "get_strided buf start step =
     map (\<lambda>j. buf ! (start + step * j)) [0..<slice_len (length buf) start step]"

text \<open>Writing \<open>val j\<close> at index \<open>start + step * j\<close> for \<open>j = 0, \<dots>, m - 1\<close>, in this order.\<close>

definition strided_fill :: "'a list \<Rightarrow> nat \<Rightarrow> nat \<Rightarrow> (nat \<Rightarrow> 'a) \<Rightarrow> nat \<Rightarrow> 'a list" where
  "strided_fill buf start step val m = fold (\<lambda>j b. b[start + step * j := val j]) [0..<m] buf"

text \<open>
  The assignment \<^verbatim>\<open>buf[start::step] = src\<close>.  numpy copies element by element when the
  lengths agree, broadcasts a one-element source over the slice, and raises
  \<^verbatim>\<open>ValueError\<close> otherwise.
\<close>

definition set_strided :: "'a list \<Rightarrow> nat \<Rightarrow> nat \<Rightarrow> 'a list \<Rightarrow> exn + 'a list" where
  "set_strided buf start step src =
     (let m = slice_len (length buf) start step
      in if length src = m then Inr (strided_fill buf start step (\<lambda>j. src ! j) m)
         else if length src = 1 then Inr (strided_fill buf start step (\<lambda>j. src ! 0) m)
         else Inl ValueError)"

section \<open>The sample generator\<close>

text \<open>
  \<^verbatim>\<open>generate_white_noise(num_samples)\<close>, the same in the three scripts:
  \<^verbatim>\<open>
  i_samples = np.random.randint(-2047, 2048, num_samples, dtype=np.int16)
  q_samples = np.random.randint(-2047, 2048, num_samples, dtype=np.int16)
  i_samples = (i_samples * 0.95).astype(np.int16)
  q_samples = (q_samples * 0.95).astype(np.int16)
  samples = np.empty(2 * num_samples, dtype=np.int16)
  samples[0::2] = i_samples
  samples[1::2] = q_samples
  return samples
  \<close>
  The function takes the generator state and returns the new one with the buffer.
\<close>

definition generate_white_noise ::
  "(nat \<Rightarrow> int16) \<Rightarrow> int \<Rightarrow> rng \<Rightarrow> exn + (int16 list \<times> rng)" where
  "generate_white_noise junk num_samples g =
     (case randint (- 2047) 2048 num_samples g of
        Inl e \<Rightarrow> Inl e
      | Inr (i_raw, g1) \<Rightarrow>
     (case randint (- 2047) 2048 num_samples g1 of
        Inl e \<Rightarrow> Inl e
      | Inr (q_raw, g2) \<Rightarrow>
     (let i_samples = scale_samples i_raw;
          q_samples = scale_samples q_raw;
          samples = np_empty (nat (2 * num_samples)) junk
      in case set_strided samples 0 2 i_samples of
           Inl e \<Rightarrow> Inl e
         | Inr samples1 \<Rightarrow>
        (case set_strided samples1 1 2 q_samples of
           Inl e \<Rightarrow> Inl e
         | Inr samples2 \<Rightarrow> Inr (samples2, g2)))))"

section \<open>Dual-channel interleaving\<close>

text \<open>
  The interleaving step of the dual scripts' loop body:
  \<^verbatim>\<open>
  dual_buffer_size = buffer_size * 2
  dual_samples = np.empty(dual_buffer_size * 2, dtype=np.int16)
  dual_samples[0::4] = noise_ch0[0::2]  # ch0 I
  dual_samples[1::4] = noise_ch0[1::2]  # ch0 Q
  dual_samples[2::4] = noise_ch1[0::2]  # ch1 I
  dual_samples[3::4] = noise_ch1[1::2]  # ch1 Q
  \<close>
\<close>

definition interleave_dual ::
  "(nat \<Rightarrow> 'a) \<Rightarrow> nat \<Rightarrow> 'a list \<Rightarrow> 'a list \<Rightarrow> exn + 'a list" where
  "interleave_dual junk buffer_size noise_ch0 noise_ch1 =
     (let dual_buffer_size = buffer_size * 2;
          dual_samples = np_empty (dual_buffer_size * 2) junk
      in case set_strided dual_samples 0 4 (get_strided noise_ch0 0 2) of
           Inl e \<Rightarrow> Inl e
         | Inr d1 \<Rightarrow>
        (case set_strided d1 1 4 (get_strided noise_ch0 1 2) of
           Inl e \<Rightarrow> Inl e
         | Inr d2 \<Rightarrow>
        (case set_strided d2 2 4 (get_strided noise_ch1 0 2) of
           Inl e \<Rightarrow> Inl e
         | Inr d3 \<Rightarrow> set_strided d3 3 4 (get_strided noise_ch1 1 2))))"

text \<open>
  The scripts never undo the interleaving.  To state that it loses nothing, the inverse
  is written with the same array operations: the four stride-4 subsequences of a transfer
  buffer are put back into two per-channel buffers.
\<close>

definition deinterleave_dual ::
  "(nat \<Rightarrow> 'a) \<Rightarrow> nat \<Rightarrow> 'a list \<Rightarrow> exn + ('a list \<times> 'a list)" where
  "deinterleave_dual junk buffer_size dual_samples =
     (case set_strided (np_empty (2 * buffer_size) junk) 0 2 (get_strided dual_samples 0 4) of
        Inl e \<Rightarrow> Inl e
      | Inr a \<Rightarrow>
     (case set_strided a 1 2 (get_strided dual_samples 1 4) of
        Inl e \<Rightarrow> Inl e
      | Inr noise_ch0 \<Rightarrow>
     (case set_strided (np_empty (2 * buffer_size) junk) 0 2 (get_strided dual_samples 2 4) of
        Inl e \<Rightarrow> Inl e
      | Inr b \<Rightarrow>
     (case set_strided b 1 2 (get_strided dual_samples 3 4) of
        Inl e \<Rightarrow> Inl e
      | Inr noise_ch1 \<Rightarrow> Inr (noise_ch0, noise_ch1)))))"

section \<open>The device and the environment\<close>

text \<open>
  The scripts drive the device through the \<^verbatim>\<open>bladerf\<close> binding, which is not part of the
  repository.  A run is recorded as a trace of events: every call made on the device with
  its outcome (\<open>True\<close>: it returned, \<open>False\<close>: it raised \<^verbatim>\<open>BladeRFError\<close>), every
  delivery of SIGINT, and every evaluation of the loop condition \<^verbatim>\<open>while running\<close> with the
  value read.
\<close>

datatype channel = CHANNEL_TX nat

datatype layout = TX_X1 | TX_X2

datatype call =
    Open
  | SetFrequency channel int
  | GetFrequency channel
  | SetSampleRate channel int
  | GetSampleRate channel
  | SetBandwidth channel int
  | GetBandwidth channel
  | SetGain channel int
  | GetGain channel
  | GetGainStages channel
  | SetGainStage channel string int
  | SetBiasTee channel bool
  | SyncConfig layout nat nat nat int
  | EnableModule channel bool
  | SyncTx "int16 list" int
  | Close

datatype event = Sigint | Poll bool | Call call bool

text \<open>
  Everything outside the scripts is a parameter: which device calls raise (\<open>fails\<close>, as a
  function of the trace so far, so that a device may fail on its second transmit only),
  when SIGINT arrives (\<open>sigint\<close>, asked at every point where the handler can run), the
  stage names \<^verbatim>\<open>get_gain_stages\<close> returns, the contents of uninitialised memory, and the
  random stream.  The theorems hold for every environment.
\<close>

record env =
  fails :: "event list \<Rightarrow> call \<Rightarrow> bool"
  sigint :: "event list \<Rightarrow> bool"
  stage_names :: "channel \<Rightarrow> string list"
  heap_junk :: "nat \<Rightarrow> int16"
  entropy :: rng

text \<open>
  The state of a run: the trace, the module-level flag \<^verbatim>\<open>running\<close>, whether the local
  \<^verbatim>\<open>dev\<close> of \<^verbatim>\<open>main\<close> holds a device (it is \<^verbatim>\<open>None\<close> until the device is open), and the
  state of numpy's generator.
\<close>

record state =
  trace :: "event list"
  running :: bool
  dev :: bool
  rng_state :: rng

text \<open>
  The module-level constants and the streaming parameters that \<^verbatim>\<open>main\<close> sets as locals.
  They are gathered in a record, so that one embedding serves the three scripts; the
  values each script hardwires follow.  \<^verbatim>\<open>int(1575.42 * 1e6)\<close> and its siblings evaluate
  to the integers given.
\<close>

record settings =
  FREQ1_HZ :: int
  FREQ2_HZ :: int
  TX_GAIN1_DB :: int
  TX_GAIN2_DB :: int
  SAMPLE_RATE_HZ :: int
  BANDWIDTH_HZ :: int
  NUM_BUFFERS :: nat
  BUFFER_SIZE :: nat
  NUM_TRANSFERS :: nat
  TIMEOUT_MS :: int

definition l5_settings :: settings where
  "l5_settings = \<lparr>FREQ1_HZ = 1176450000, FREQ2_HZ = 1176450000, TX_GAIN1_DB = 60,
     TX_GAIN2_DB = 60, SAMPLE_RATE_HZ = 5000000, BANDWIDTH_HZ = 2000000,
     NUM_BUFFERS = 16, BUFFER_SIZE = 8192, NUM_TRANSFERS = 8, TIMEOUT_MS = 3500\<rparr>"

definition l1_l2_settings :: settings where
  "l1_l2_settings = \<lparr>FREQ1_HZ = 1575420000, FREQ2_HZ = 1227600000, TX_GAIN1_DB = 60,
     TX_GAIN2_DB = 60, SAMPLE_RATE_HZ = 5000000, BANDWIDTH_HZ = 2000000,
     NUM_BUFFERS = 16, BUFFER_SIZE = 8192, NUM_TRANSFERS = 8, TIMEOUT_MS = 3500\<rparr>"

definition l2_l5_settings :: settings where
  "l2_l5_settings = \<lparr>FREQ1_HZ = 1227600000, FREQ2_HZ = 1176450000, TX_GAIN1_DB = 60,
     TX_GAIN2_DB = 60, SAMPLE_RATE_HZ = 5000000, BANDWIDTH_HZ = 2000000,
     NUM_BUFFERS = 16, BUFFER_SIZE = 8192, NUM_TRANSFERS = 8, TIMEOUT_MS = 3500\<rparr>"

definition init :: "env \<Rightarrow> state" where
  "init e = \<lparr>trace = [], running = True, dev = False, rng_state = entropy e\<rparr>"

text \<open>
  \<^verbatim>\<open>signal_handler\<close> sets \<^verbatim>\<open>running = False\<close>.  Python runs a signal handler in the main
  thread between two bytecode instructions, never inside a call into the binding: a
  signal that arrives during a device call or during \<^verbatim>\<open>time.sleep\<close> is handled once the call
  has returned.  So the handler can run before each device call and before each evaluation
  of the loop condition; \<open>deliver\<close> is placed at exactly these points.
\<close>

definition signal_handler :: "state \<Rightarrow> state" where
  "signal_handler s = s\<lparr>trace := trace s @ [Sigint], running := False\<rparr>"

definition deliver :: "env \<Rightarrow> state \<Rightarrow> state" where
  "deliver e s = (if sigint e (trace s) then signal_handler s else s)"

text \<open>One call on the device: the result is whether it returned normally.\<close>

definition dev_call :: "env \<Rightarrow> call \<Rightarrow> state \<Rightarrow> bool \<times> state" where
  "dev_call e c s =
     (let s1 = deliver e s; ok = \<not> fails e (trace s1) c
      in (ok, s1\<lparr>trace := trace s1 @ [Call c ok]\<rparr>))"

text \<open>Consecutive statements that each call the device: the first exception ends them.\<close>

fun calls :: "env \<Rightarrow> call list \<Rightarrow> state \<Rightarrow> (exn + unit) \<times> state" where
  "calls e [] s = (Inr (), s)"
| "calls e (c # cs) s =
     (case dev_call e c s of
        (True, s1) \<Rightarrow> calls e cs s1
      | (False, s1) \<Rightarrow> (Inl BladeRFError, s1))"

section \<open>Channel configuration\<close>

text \<open>
  \<^verbatim>\<open>'dsa' in stage.lower()\<close>.  Stage names are the ASCII names the driver reports;
  \<open>lower\<close> maps the letters A to Z to lower case and leaves every other character alone,
  and \<open>contains needle hay\<close> is Python's substring test \<^verbatim>\<open>needle in hay\<close>.
\<close>

definition lower_char :: "char \<Rightarrow> char" where
  "lower_char c =
     (case map_of (zip ''ABCDEFGHIJKLMNOPQRSTUVWXYZ'' ''abcdefghijklmnopqrstuvwxyz'') c of
        Some l \<Rightarrow> l
      | None \<Rightarrow> c)"

definition lower :: "string \<Rightarrow> string" where
  "lower s = map lower_char s"

fun starts_with :: "string \<Rightarrow> string \<Rightarrow> bool" where
  "starts_with [] hay = True"
| "starts_with (c # cs) [] = False"
| "starts_with (c # cs) (h # hs) = (c = h \<and> starts_with cs hs)"

fun contains :: "string \<Rightarrow> string \<Rightarrow> bool" where
  "contains needle [] = (needle = [])"
| "contains needle (h # hs) = (starts_with needle (h # hs) \<or> contains needle hs)"

text \<open>
  The loop over the gain stages, the same in \<^verbatim>\<open>configure_channel\<close> and in the
  single-channel \<^verbatim>\<open>main\<close>:
  \<^verbatim>\<open>
  for stage in gain_stages:
      try:
          if 'dsa' in stage.lower():
              dev.set_gain_stage(channel, stage, 0)
          else:
              dev.set_gain_stage(channel, stage, 60)
      except:
          pass
  \<close>
  The outcome of the call is dropped: that is the \<^verbatim>\<open>except: pass\<close>.
\<close>

fun set_gain_stages :: "env \<Rightarrow> channel \<Rightarrow> string list \<Rightarrow> state \<Rightarrow> state" where
  "set_gain_stages e channel [] s = s"
| "set_gain_stages e channel (stage # rest) s =
     (let s1 = (if contains ''dsa'' (lower stage)
                then snd (dev_call e (SetGainStage channel stage 0) s)
                else snd (dev_call e (SetGainStage channel stage 60) s))
      in set_gain_stages e channel rest s1)"

text \<open>
  \<^verbatim>\<open>configure_channel(dev, channel_idx, freq_hz, gain_db, name)\<close> of the dual scripts
  (\<^verbatim>\<open>name\<close> is used in messages only).  The four setters, their read-backs and
  \<^verbatim>\<open>get_gain_stages\<close> are outside every \<^verbatim>\<open>try\<close>; the stage loop and \<^verbatim>\<open>set_bias_tee\<close> are
  guarded by \<^verbatim>\<open>except: pass\<close>.
\<close>

definition configure_channel ::
  "settings \<Rightarrow> env \<Rightarrow> nat \<Rightarrow> int \<Rightarrow> int \<Rightarrow> state \<Rightarrow> (exn + channel) \<times> state" where
  "configure_channel st e channel_idx freq_hz gain_db s =
     (let channel = CHANNEL_TX channel_idx
      in case calls e [SetFrequency channel freq_hz, GetFrequency channel,
                       SetSampleRate channel (SAMPLE_RATE_HZ st), GetSampleRate channel,
                       SetBandwidth channel (BANDWIDTH_HZ st), GetBandwidth channel,
                       SetGain channel gain_db, GetGain channel,
                       GetGainStages channel] s of
           (Inl x, s1) \<Rightarrow> (Inl x, s1)
         | (Inr _, s1) \<Rightarrow>
             (let s2 = set_gain_stages e channel (stage_names e channel) s1;
                  s3 = snd (dev_call e (SetBiasTee channel True) s2)
              in (Inr channel, s3)))"

section \<open>The streaming loops\<close>

text \<open>
  \<^verbatim>\<open>while running:\<close> may run forever, so the loops take fuel: one unit per iteration, and
  the result \<open>None\<close> when the fuel is used up with the loop still running.  \<open>Some (Inr ())\<close>
  is the normal exit (the condition was false), \<open>Some (Inl x)\<close> an exception that leaves
  the loop.

  The loop of the dual scripts:
  \<^verbatim>\<open>
  while running:
      noise_ch0 = generate_white_noise(buffer_size)
      noise_ch1 = generate_white_noise(buffer_size)
      dual_samples = ...            # interleave_dual
      dev.sync_tx(dual_samples, timeout_ms)
      time.sleep(0.001)
  \<close>
\<close>

fun tx_loop_dual ::
  "nat \<Rightarrow> env \<Rightarrow> nat \<Rightarrow> int \<Rightarrow> state \<Rightarrow> (exn + unit) option \<times> state" where
  "tx_loop_dual 0 e buffer_size timeout s = (None, s)"
| "tx_loop_dual (Suc fuel) e buffer_size timeout s =
     (let s1 = deliver e s;
          s2 = s1\<lparr>trace := trace s1 @ [Poll (running s1)]\<rparr>
      in if \<not> running s1 then (Some (Inr ()), s2)
         else
           (case generate_white_noise (heap_junk e) (int buffer_size) (rng_state s2) of
              Inl x \<Rightarrow> (Some (Inl x), s2)
            | Inr (noise_ch0, g1) \<Rightarrow>
           (case generate_white_noise (heap_junk e) (int buffer_size) g1 of
              Inl x \<Rightarrow> (Some (Inl x), s2\<lparr>rng_state := g1\<rparr>)
            | Inr (noise_ch1, g2) \<Rightarrow>
           (case interleave_dual (heap_junk e) buffer_size noise_ch0 noise_ch1 of
              Inl x \<Rightarrow> (Some (Inl x), s2\<lparr>rng_state := g2\<rparr>)
            | Inr dual_samples \<Rightarrow>
           (case dev_call e (SyncTx dual_samples timeout) (s2\<lparr>rng_state := g2\<rparr>) of
              (False, s3) \<Rightarrow> (Some (Inl BladeRFError), s3)
            | (True, s3) \<Rightarrow> tx_loop_dual fuel e buffer_size timeout s3)))))"

text \<open>
  The loop of the single-channel script, entered with the buffer generated before it:
  \<^verbatim>\<open>
  while running:
      dev.sync_tx(noise_buffer, timeout_ms)
      if np.random.randint(0, 100) == 0:
          noise_buffer = generate_white_noise(num_samples)
      time.sleep(0.001)
  \<close>
\<close>

fun tx_loop_single ::
  "nat \<Rightarrow> env \<Rightarrow> nat \<Rightarrow> int \<Rightarrow> int16 list \<Rightarrow> state \<Rightarrow> (exn + unit) option \<times> state" where
  "tx_loop_single 0 e num_samples timeout noise_buffer s = (None, s)"
| "tx_loop_single (Suc fuel) e num_samples timeout noise_buffer s =
     (let s1 = deliver e s;
          s2 = s1\<lparr>trace := trace s1 @ [Poll (running s1)]\<rparr>
      in if \<not> running s1 then (Some (Inr ()), s2)
         else
           (case dev_call e (SyncTx noise_buffer timeout) s2 of
              (False, s3) \<Rightarrow> (Some (Inl BladeRFError), s3)
            | (True, s3) \<Rightarrow>
                (case randint_scalar 0 100 (rng_state s3) of
                   (d, g1) \<Rightarrow>
                     if d = 0
                     then (case generate_white_noise (heap_junk e) (int num_samples) g1 of
                             Inl x \<Rightarrow> (Some (Inl x), s3\<lparr>rng_state := g1\<rparr>)
                           | Inr (fresh, g2) \<Rightarrow>
                               tx_loop_single fuel e num_samples timeout fresh
                                 (s3\<lparr>rng_state := g2\<rparr>))
                     else tx_loop_single fuel e num_samples timeout noise_buffer
                            (s3\<lparr>rng_state := g1\<rparr>))))"

section \<open>The main functions\<close>

text \<open>
  \<^verbatim>\<open>main\<close> of the dual scripts is
  \<^verbatim>\<open>
  dev = None
  try:
      dev = _bladerf.BladeRF()
      ch0 = configure_channel(dev, 0, FREQ1_HZ, ..., "CH0/...")
      ch1 = configure_channel(dev, 1, FREQ2_HZ, ..., "CH1/...")
      dev.sync_config(layout=TX_X2, fmt=SC16_Q11, num_buffers, buffer_size, num_transfers,
                      stream_timeout=timeout_ms)
      dev.enable_module(ch0, True)
      dev.enable_module(ch1, True)
      while running: ...
  except _bladerf.BladeRFError as e:
      return 1
  except Exception as e:
      return 1
  finally:
      if dev:
          try:
              dev.enable_module(_bladerf.CHANNEL_TX(0), False)
              dev.enable_module(_bladerf.CHANNEL_TX(1), False)
              dev.close()
          except:
              pass
  return 0
  \<close>
  \<open>try_body_dual\<close> is the body of the \<^verbatim>\<open>try\<close>, \<open>finally_dual\<close> the \<^verbatim>\<open>finally\<close> clause,
  and \<open>main_dual\<close> the whole function: its result is the value returned (the process
  exit status), or \<open>None\<close> while the loop is still running.
\<close>

definition try_body_dual ::
  "settings \<Rightarrow> env \<Rightarrow> nat \<Rightarrow> state \<Rightarrow> (exn + unit) option \<times> state" where
  "try_body_dual st e fuel s =
     (case dev_call e Open s of
        (False, s1) \<Rightarrow> (Some (Inl BladeRFError), s1)
      | (True, s1) \<Rightarrow>
     (case configure_channel st e 0 (FREQ1_HZ st) (TX_GAIN1_DB st) (s1\<lparr>dev := True\<rparr>) of
        (Inl x, s2) \<Rightarrow> (Some (Inl x), s2)
      | (Inr ch0, s2) \<Rightarrow>
     (case configure_channel st e 1 (FREQ2_HZ st) (TX_GAIN2_DB st) s2 of
        (Inl x, s3) \<Rightarrow> (Some (Inl x), s3)
      | (Inr ch1, s3) \<Rightarrow>
     (case calls e [SyncConfig TX_X2 (NUM_BUFFERS st) (BUFFER_SIZE st) (NUM_TRANSFERS st)
                      (TIMEOUT_MS st),
                    EnableModule ch0 True, EnableModule ch1 True] s3 of
        (Inl x, s4) \<Rightarrow> (Some (Inl x), s4)
      | (Inr _, s4) \<Rightarrow> tx_loop_dual fuel e (BUFFER_SIZE st) (TIMEOUT_MS st) s4))))"

definition finally_dual :: "env \<Rightarrow> state \<Rightarrow> state" where
  "finally_dual e s =
     (if dev s
      then snd (calls e [EnableModule (CHANNEL_TX 0) False, EnableModule (CHANNEL_TX 1) False,
                         Close] s)
      else s)"

definition main_dual :: "settings \<Rightarrow> env \<Rightarrow> nat \<Rightarrow> int option \<times> state" where
  "main_dual st e fuel =
     (case try_body_dual st e fuel (init e) of
        (None, s) \<Rightarrow> (None, s)
      | (Some (Inl x), s) \<Rightarrow> (Some 1, finally_dual e s)
      | (Some (Inr _), s) \<Rightarrow> (Some 0, finally_dual e s))"

text \<open>
  \<^verbatim>\<open>main\<close> of the single-channel script has the same shape.  It configures channel 0
  inline (with \<^verbatim>\<open>get_gain_stages\<close> before \<^verbatim>\<open>set_gain\<close>), configures the stream with
  \<^verbatim>\<open>TX_X1\<close>, enables the channel, generates the first buffer and enters its loop; its
  \<^verbatim>\<open>finally\<close> clause disables channel 0 and closes the device in one guarded block.
\<close>

definition try_body_single ::
  "settings \<Rightarrow> env \<Rightarrow> nat \<Rightarrow> state \<Rightarrow> (exn + unit) option \<times> state" where
  "try_body_single st e fuel s =
     (case dev_call e Open s of
        (False, s1) \<Rightarrow> (Some (Inl BladeRFError), s1)
      | (True, s1) \<Rightarrow>
     (let channel = CHANNEL_TX 0
      in case calls e [SetFrequency channel (FREQ1_HZ st), GetFrequency channel,
                       SetSampleRate channel (SAMPLE_RATE_HZ st), GetSampleRate channel,
                       SetBandwidth channel (BANDWIDTH_HZ st), GetBandwidth channel,
                       GetGainStages channel,
                       SetGain channel (TX_GAIN1_DB st), GetGain channel]
                    (s1\<lparr>dev := True\<rparr>) of
           (Inl x, s2) \<Rightarrow> (Some (Inl x), s2)
         | (Inr _, s2) \<Rightarrow>
        (let s3 = set_gain_stages e channel (stage_names e channel) s2;
             s4 = snd (dev_call e (SetBiasTee channel True) s3)
         in case calls e [SyncConfig TX_X1 (NUM_BUFFERS st) (BUFFER_SIZE st) (NUM_TRANSFERS st)
                            (TIMEOUT_MS st),
                          EnableModule channel True] s4 of
              (Inl x, s5) \<Rightarrow> (Some (Inl x), s5)
            | (Inr _, s5) \<Rightarrow>
           (case generate_white_noise (heap_junk e) (int (BUFFER_SIZE st)) (rng_state s5) of
              Inl x \<Rightarrow> (Some (Inl x), s5)
            | Inr (noise_buffer, g1) \<Rightarrow>
                tx_loop_single fuel e (BUFFER_SIZE st) (TIMEOUT_MS st) noise_buffer
                  (s5\<lparr>rng_state := g1\<rparr>)))))"

definition finally_single :: "env \<Rightarrow> state \<Rightarrow> state" where
  "finally_single e s =
     (if dev s then snd (calls e [EnableModule (CHANNEL_TX 0) False, Close] s) else s)"

definition main_single :: "settings \<Rightarrow> env \<Rightarrow> nat \<Rightarrow> int option \<times> state" where
  "main_single st e fuel =
     (case try_body_single st e fuel (init e) of
        (None, s) \<Rightarrow> (None, s)
      | (Some (Inl x), s) \<Rightarrow> (Some 1, finally_single e s)
      | (Some (Inr _), s) \<Rightarrow> (Some 0, finally_single e s))"

text \<open>The three scripts.\<close>

definition main_l5 :: "env \<Rightarrow> nat \<Rightarrow> int option \<times> state" where
  "main_l5 = main_single l5_settings"

definition main_l1_l2 :: "env \<Rightarrow> nat \<Rightarrow> int option \<times> state" where
  "main_l1_l2 = main_dual l1_l2_settings"

definition main_l2_l5 :: "env \<Rightarrow> nat \<Rightarrow> int option \<times> state" where
  "main_l2_l5 = main_dual l2_l5_settings"

section \<open>Observations on traces\<close>

text \<open>
  \<open>is_tx\<close> recognises a transmit call, \<open>is_poll\<close> an evaluation of the loop condition.
  A call is \<open>fatal\<close> when the scripts make it outside every guarded block, so that its
  exception reaches the handlers of \<^verbatim>\<open>main\<close>: everything except \<^verbatim>\<open>set_gain_stage\<close>,
  \<^verbatim>\<open>set_bias_tee\<close>, and the \<^verbatim>\<open>enable_module(..., False)\<close> and \<^verbatim>\<open>close\<close> of the \<^verbatim>\<open>finally\<close>
  clause.
\<close>

fun is_tx :: "event \<Rightarrow> bool" where
  "is_tx (Call (SyncTx buf t) ok) = True"
| "is_tx ev = False"

fun is_poll :: "event \<Rightarrow> bool" where
  "is_poll (Poll b) = True"
| "is_poll ev = False"

fun fatal :: "call \<Rightarrow> bool" where
  "fatal (SetGainStage ch stage v) = False"
| "fatal (SetBiasTee ch b) = False"
| "fatal (EnableModule ch b) = b"
| "fatal Close = False"
| "fatal c = True"

text \<open>The calls made before the loop is entered.\<close>

fun setup_call :: "call \<Rightarrow> bool" where
  "setup_call (SyncTx buf t) = False"
| "setup_call (EnableModule ch b) = b"
| "setup_call Close = False"
| "setup_call c = True"

fun call_of :: "event \<Rightarrow> call list" where
  "call_of (Call c ok) = [c]"
| "call_of ev = []"

definition calls_of :: "event list \<Rightarrow> call list" where
  "calls_of tr = concat (map call_of tr)"

definition count_tx :: "event list \<Rightarrow> nat" where
  "count_tx tr = length (filter is_tx tr)"

definition count_poll :: "event list \<Rightarrow> nat" where
  "count_poll tr = length (filter is_poll tr)"

text \<open>The number of transmit calls made after the first delivery of SIGINT.\<close>

definition tx_after_sigint :: "event list \<Rightarrow> nat" where
  "tx_after_sigint tr = count_tx (dropWhile (\<lambda>ev. ev \<noteq> Sigint) tr)"

text \<open>
  An event is \<open>benign\<close> when it neither ends the run with an error nor ends the loop:
  it is not a fatal call that raised and not a loop condition read as false.
  \<open>extends P s s'\<close>: the run went from \<open>s\<close> to \<open>s'\<close> by events that all satisfy \<open>P\<close>, and
  the flag is cleared at the end exactly if it was cleared before or SIGINT was among
  them, and \<^verbatim>\<open>dev\<close> is unchanged.
\<close>

fun benign :: "event \<Rightarrow> bool" where
  "benign Sigint = True"
| "benign (Poll b) = b"
| "benign (Call c ok) = (ok \<or> \<not> fatal c)"

definition extends :: "(event \<Rightarrow> bool) \<Rightarrow> state \<Rightarrow> state \<Rightarrow> bool" where
  "extends P s s' \<longleftrightarrow>
     (\<exists>new. trace s' = trace s @ new \<and> list_all P new \<and>
            (running s' \<longleftrightarrow> running s \<and> Sigint \<notin> set new)) \<and>
     dev s' = dev s"

text \<open>
  \<open>aborts s s'\<close>: the run went from \<open>s\<close> to \<open>s'\<close> by benign events followed by a fatal
  call that raised.  \<open>stops s s'\<close>: by benign events followed by a loop condition read as
  false.
\<close>

definition aborts :: "state \<Rightarrow> state \<Rightarrow> bool" where
  "aborts s s' \<longleftrightarrow>
     (\<exists>mid c. extends benign s mid \<and> fatal c \<and> trace s' = trace mid @ [Call c False] \<and>
              running s' = running mid \<and> dev s' = dev mid)"

definition stops :: "state \<Rightarrow> state \<Rightarrow> bool" where
  "stops s s' \<longleftrightarrow>
     (\<exists>mid. extends benign s mid \<and> \<not> running mid \<and> trace s' = trace mid @ [Poll False] \<and>
            running s' = running mid \<and> dev s' = dev mid)"

text \<open>The flag \<^verbatim>\<open>running\<close> is cleared by the signal handler and by nothing else.\<close>

definition flag_inv :: "state \<Rightarrow> bool" where
  "flag_inv s \<longleftrightarrow> (running s \<longleftrightarrow> Sigint \<notin> set (trace s))"

text \<open>
  Environments for concrete runs: a device on which nothing fails and no signal arrives,
  and variants on which one particular call raises.
\<close>

definition quiet_env :: env where
  "quiet_env = \<lparr>fails = (\<lambda>tr c. False), sigint = (\<lambda>tr. False),
     stage_names = (\<lambda>ch. [''txvga1'', ''dsa1'', ''dsa2'']),
     heap_junk = (\<lambda>k. 0), entropy = (\<lambda>k. 1000 * k)\<rparr>"

definition enum_fails_env :: env where
  "enum_fails_env = quiet_env\<lparr>fails := (\<lambda>tr c. c = GetGainStages (CHANNEL_TX 0))\<rparr>"

definition disable_fails_env :: env where
  "disable_fails_env = quiet_env\<lparr>fails := (\<lambda>tr c. c = EnableModule (CHANNEL_TX 0) False)\<rparr>"

definition second_tx_fails_env :: env where
  "second_tx_fails_env =
     quiet_env\<lparr>fails := (\<lambda>tr c. is_tx (Call c False) \<and> count_tx tr = 1)\<rparr>"

definition sigint_at_start_env :: env where
  "sigint_at_start_env = quiet_env\<lparr>sigint := (\<lambda>tr. tr = [])\<rparr>"

definition cancel_disable_fails_env :: env where
  "cancel_disable_fails_env =
     sigint_at_start_env\<lparr>fails := (\<lambda>tr c. c = EnableModule (CHANNEL_TX 0) False)\<rparr>"

section \<open>Properties of the strided array operations\<close>

lemma length_strided_fill: "length (strided_fill buf start step val m) = length buf"
  by (induction m) (simp_all add: strided_fill_def)

lemma strided_fill_Suc:
  "strided_fill buf start step val (Suc m) =
     (strided_fill buf start step val m)[start + step * m := val m]"
  by (simp add: strided_fill_def)

lemma strided_fill_hit:
  assumes "0 < step" "j < m" "start + step * j < length buf"
  shows "strided_fill buf start step val m ! (start + step * j) = val j"
  using assms
proof (induction m)
  case 0
  then show ?case by simp
next
  case (Suc m)
  show ?case
  proof (cases "j = m")
    case True
    with Suc.prems show ?thesis
      by (simp add: strided_fill_Suc length_strided_fill)
  next
    case False
    with Suc.prems have "j < m" by simp
    moreover from False Suc.prems have "start + step * m \<noteq> start + step * j" by simp
    ultimately show ?thesis
      using Suc by (simp add: strided_fill_Suc)
  qed
qed

lemma strided_fill_miss:
  assumes "\<forall>j<m. k \<noteq> start + step * j"
  shows "strided_fill buf start step val m ! k = buf ! k"
  using assms
proof (induction m)
  case 0
  then show ?case by (simp add: strided_fill_def)
next
  case (Suc m)
  then have "k \<noteq> start + step * m" and "\<forall>j<m. k \<noteq> start + step * j"
    by auto
  with Suc.IH show ?case
    by (simp add: strided_fill_Suc)
qed

lemma slice_len_iff:
  assumes "0 < step"
  shows "j < slice_len n start step \<longleftrightarrow> start + step * j < n"
proof (cases "start < n")
  case False
  then show ?thesis by (simp add: slice_len_def)
next
  case True
  have "j < (n - start + step - 1) div step \<longleftrightarrow> Suc j * step \<le> n - start + step - 1"
    using assms by (simp add: less_eq_div_iff_mult_less_eq Suc_le_eq [symmetric] del: mult_Suc)
  also have "\<dots> \<longleftrightarrow> start + step * j < n"
    using True assms by (simp add: algebra_simps) arith
  finally show ?thesis using True by (simp add: slice_len_def)
qed

lemma slice_len_even [simp]: "slice_len (2 * n) 0 2 = n" "slice_len (2 * n) (Suc 0) 2 = n"
  by (auto simp: slice_len_def)

lemma slice_len_quad [simp]:
  "slice_len (4 * n) 0 4 = n" "slice_len (4 * n) (Suc 0) 4 = n"
  "slice_len (4 * n) 2 4 = n" "slice_len (4 * n) 3 4 = n"
  by (auto simp: slice_len_def)

section \<open>The bound on scaled samples\<close>

lemma bit_length_le: "p < 2 ^ k \<Longrightarrow> bit_length p \<le> k"
proof (induction k arbitrary: p)
  case 0
  then show ?case by (simp add: bit_length.simps)
next
  case (Suc k)
  then have "p div 2 < 2 ^ k" by simp
  then have "bit_length (p div 2) \<le> k" by (rule Suc.IH)
  then show ?case by (subst bit_length.simps) simp
qed

lemma round_half_even_upper: "round_half_even p e * 2 ^ e \<le> p + 2 ^ e"
proof -
  have "p div 2 ^ e * 2 ^ e + p mod 2 ^ e = p" by (rule div_mult_mod_eq)
  moreover have "0 \<le> p mod (2 ^ e :: int)" by simp
  ultimately have "(p div 2 ^ e) * 2 ^ e \<le> p" by linarith
  then have "(p div 2 ^ e + 1) * 2 ^ e \<le> p + 2 ^ e"
    by (simp add: algebra_simps)
  moreover have "round_half_even p e \<le> p div 2 ^ e + 1"
    by (simp add: round_half_even_def Let_def)
  ultimately show ?thesis
    by (meson mult_right_mono order_trans zero_le_numeral zero_le_power)
qed

lemma round_half_even_nonneg: "0 \<le> p \<Longrightarrow> 0 \<le> round_half_even p e"
  by (simp add: round_half_even_def Let_def pos_imp_zdiv_nonneg_iff)

lemma round_to_f64_upper:
  assumes "p < 2 ^ 64"
  shows "round_to_f64 p \<le> p + 2048"
proof -
  have "bit_length p - 53 \<le> 11"
    using bit_length_le [OF assms] by simp
  then have "(2::int) ^ (bit_length p - 53) \<le> 2 ^ 11"
    by (rule power_increasing) simp
  with round_half_even_upper [of p "bit_length p - 53"] show ?thesis
    by (simp add: round_to_f64_def Let_def)
qed

lemma round_to_f64_nonneg: "0 \<le> p \<Longrightarrow> 0 \<le> round_to_f64 p"
  by (simp add: round_to_f64_def Let_def round_half_even_nonneg)

lemma mul_095_abs:
  "\<bar>mul_095 w\<bar> = (if sint w = 0 then 0 else round_to_f64 (\<bar>sint w\<bar> * f64_095))"
proof -
  have "0 \<le> round_to_f64 (\<bar>sint w\<bar> * f64_095)"
    by (rule round_to_f64_nonneg) (simp add: f64_095_def)
  then show ?thesis
    by (simp add: mul_095_def abs_mult)
qed

lemma mul_095_bound:
  assumes "\<bar>sint w\<bar> \<le> 2047"
  shows "\<bar>mul_095 w\<bar> < 1945 * 2 ^ 53"
proof -
  let ?p = "\<bar>sint w\<bar> * f64_095"
  have p: "?p \<le> 2047 * f64_095"
    using assms by (simp add: f64_095_def)
  then have "?p < 2 ^ 64" by (simp add: f64_095_def)
  then have "round_to_f64 ?p \<le> ?p + 2048" by (rule round_to_f64_upper)
  with p have "round_to_f64 ?p < 1945 * 2 ^ 53" by (simp add: f64_095_def)
  then show ?thesis by (simp add: mul_095_abs)
qed

lemma sint_word_of_int_small:
  assumes "\<bar>k\<bar> \<le> 1944"
  shows "sint (word_of_int k :: int16) = k"
proof -
  from assms have "- (2 ^ 15) \<le> k" "k < 2 ^ 15" by simp_all
  then show ?thesis
    by (simp add: sint_sbintrunc' signed_take_bit_int_eq_self)
qed

lemma sint_astype_int16:
  assumes "\<bar>x\<bar> < 1945 * 2 ^ 53"
  shows "\<bar>sint (astype_int16 x)\<bar> \<le> 1944"
proof -
  let ?k = "\<bar>x\<bar> div 2 ^ 53"
  have "0 \<le> ?k"
    by (simp add: pos_imp_zdiv_nonneg_iff)
  moreover from assms have "\<bar>x\<bar> \<le> 1945 * 2 ^ 53 - 1" by simp
  then have "?k \<le> (1945 * 2 ^ 53 - 1) div 2 ^ 53"
    by (rule zdiv_mono1) simp
  then have "?k \<le> 1944" by simp
  ultimately have k: "0 \<le> ?k" "?k \<le> 1944" by simp_all
  then have "\<bar>sgn x * ?k\<bar> \<le> 1944"
    by (simp add: abs_mult)
  then have small: "\<bar>sgn x * ?k\<bar> \<le> 1944" .
  have "sint (astype_int16 x) = sgn x * ?k"
    unfolding astype_int16_def by (rule sint_word_of_int_small) (rule small)
  with small show ?thesis by simp
qed

lemma scale_bound:
  assumes "\<bar>sint w\<bar> \<le> 2047"
  shows "\<bar>sint (astype_int16 (mul_095 w))\<bar> \<le> 1944"
  using assms by (intro sint_astype_int16 mul_095_bound)

section \<open>The sample generator\<close>

lemma length_np_empty [simp]: "length (np_empty n junk) = n"
  by (simp add: np_empty_def)

lemma randint_nat:
  "randint (- 2047) 2048 (int n) g =
     Inr (map (\<lambda>k. word_of_int (uniform_draw (- 2047) 2048 (g k))) [0..<n], advance n g)"
  by (simp add: randint_def)

lemma uniform_draw_range:
  assumes "low < high"
  shows "low \<le> uniform_draw low high x \<and> uniform_draw low high x < high"
proof -
  from assms have pos: "0 < high - low" by simp
  have "0 \<le> int x mod (high - low)"
    using pos by (rule pos_mod_sign)
  moreover have "int x mod (high - low) < high - low"
    using pos by (rule pos_mod_bound)
  ultimately show ?thesis
    unfolding uniform_draw_def by linarith
qed

lemma sint_raw_draw:
  "\<bar>sint (word_of_int (uniform_draw (- 2047) 2048 x) :: int16)\<bar> \<le> 2047"
proof -
  let ?k = "uniform_draw (- 2047) 2048 x"
  have "- 2047 \<le> ?k \<and> ?k < 2048"
    by (rule uniform_draw_range) simp
  then have r: "- 2047 \<le> ?k" "?k \<le> 2047" by simp_all
  then have "- (2 ^ 15) \<le> ?k" "?k < 2 ^ 15" by simp_all
  then have "sint (word_of_int ?k :: int16) = ?k"
    by (simp add: sint_sbintrunc' signed_take_bit_int_eq_self)
  with r show ?thesis by simp
qed

lemma set_strided_same_length:
  "length src = slice_len (length buf) start step \<Longrightarrow>
     set_strided buf start step src =
       Inr (strided_fill buf start step (\<lambda>j. src ! j) (length src))"
  by (simp add: set_strided_def Let_def)

lemma iq_fill_even:
  assumes "length buf = 2 * n" "s < n"
  shows "strided_fill (strided_fill buf 0 2 a n) (Suc 0) 2 b n ! (2 * s) = a s"
proof -
  have "\<forall>j<n. 2 * s \<noteq> Suc 0 + 2 * j" by presburger
  then have "strided_fill (strided_fill buf 0 2 a n) (Suc 0) 2 b n ! (2 * s) =
      strided_fill buf 0 2 a n ! (2 * s)"
    by (rule strided_fill_miss)
  also have "\<dots> = a s"
    using strided_fill_hit [of 2 s n 0 buf a] assms by simp
  finally show ?thesis .
qed

lemma iq_fill_odd:
  assumes "length buf = 2 * n" "s < n"
  shows "strided_fill (strided_fill buf 0 2 a n) (Suc 0) 2 b n ! (2 * s + 1) = b s"
  using strided_fill_hit [of 2 s n "Suc 0" "strided_fill buf 0 2 a n" b] assms
  by (simp add: length_strided_fill)

lemma generate_white_noise_nat:
  "generate_white_noise junk (int n) g =
     Inr (strided_fill
            (strided_fill (np_empty (2 * n) junk) 0 2
               (\<lambda>j. astype_int16 (mul_095 (word_of_int (uniform_draw (- 2047) 2048 (g j))))) n)
            (Suc 0) 2
            (\<lambda>j. astype_int16 (mul_095 (word_of_int (uniform_draw (- 2047) 2048 (g (n + j)))))) n,
          advance n (advance n g))"
proof -
  let ?i = "scale_samples (map (\<lambda>k. word_of_int (uniform_draw (- 2047) 2048 (g k))) [0..<n])"
  let ?q = "scale_samples (map (\<lambda>k. word_of_int (uniform_draw (- 2047) 2048 (advance n g k))) [0..<n])"
  let ?b = "np_empty (2 * n) junk :: int16 list"
  have li: "length ?i = n" and lq: "length ?q = n"
    by (simp_all add: scale_samples_def)
  let ?a = "\<lambda>j. astype_int16 (mul_095 (word_of_int (uniform_draw (- 2047) 2048 (g j))))"
  let ?c = "\<lambda>j. astype_int16 (mul_095 (word_of_int (uniform_draw (- 2047) 2048 (g (n + j)))))"
  have fi: "strided_fill ?b 0 2 (\<lambda>j. ?i ! j) n = strided_fill ?b 0 2 ?a n"
    unfolding strided_fill_def by (rule fold_cong) (simp_all add: scale_samples_def)
  have fq: "\<And>c. strided_fill c (Suc 0) 2 (\<lambda>j. ?q ! j) n = strided_fill c (Suc 0) 2 ?c n"
    unfolding strided_fill_def
    by (rule fold_cong) (simp_all add: scale_samples_def advance_def add.commute)
  have 1: "set_strided ?b 0 2 ?i = Inr (strided_fill ?b 0 2 ?a n)"
    using set_strided_same_length [of ?i ?b 0 2] li fi by simp
  have 2: "set_strided (strided_fill ?b 0 2 ?a n) (Suc 0) 2 ?q =
      Inr (strided_fill (strided_fill ?b 0 2 ?a n) (Suc 0) 2 ?c n)"
    using set_strided_same_length [of ?q "strided_fill ?b 0 2 ?a n" "Suc 0" 2] lq fq
    by (simp add: length_strided_fill)
  have nat2: "nat (2 * int n) = 2 * n" by simp
  show ?thesis
    unfolding generate_white_noise_def randint_nat
    by (simp only: sum.case prod.case Let_def nat2 1 2 One_nat_def)
qed

lemmas scale_eval =
  astype_int16_def mul_095_def round_to_f64_def round_half_even_def f64_095_def
  bit_length.simps uniform_draw_def

lemma scale_extremes:
  "sint (astype_int16 (mul_095 (word_of_int 2047))) = 1944"
  "sint (astype_int16 (mul_095 (word_of_int (- 2047)))) = - 1944"
  by (simp_all add: scale_eval)

text \<open>
  Claim C1.  For every number of samples \<open>n > 0\<close>, \<^verbatim>\<open>generate_white_noise\<close> returns a
  buffer, and every element \<open>v\<close> of it satisfies \<open>-1944 \<le> v \<le> 1944\<close>: the raw values lie
  between \<open>-2047\<close> and \<open>2047\<close>, and the binary64 product with 0.95, truncated toward
  zero, has magnitude at most 1944.  (\<open>scale_extremes\<close> shows that both bounds are
  attained, at the raw values \<open>2047\<close> and \<open>-2047\<close>.)
\<close>

theorem generate_white_noise_bounds:
  assumes "0 < n"
  shows "\<exists>samples g'. generate_white_noise junk (int n) g = Inr (samples, g') \<and>
           samples \<noteq> [] \<and>
           (\<forall>v\<in>set samples. - 1944 \<le> sint v \<and> sint v \<le> 1944)"
proof -
  let ?a = "\<lambda>j. astype_int16 (mul_095 (word_of_int (uniform_draw (- 2047) 2048 (g j))))"
  let ?c = "\<lambda>j. astype_int16 (mul_095 (word_of_int (uniform_draw (- 2047) 2048 (g (n + j)))))"
  let ?b = "np_empty (2 * n) junk :: int16 list"
  let ?s = "strided_fill (strided_fill ?b 0 2 ?a n) (Suc 0) 2 ?c n"
  have len: "length ?s = 2 * n"
    by (simp add: length_strided_fill)
  have ab: "\<And>j. \<bar>sint (?a j)\<bar> \<le> 1944" "\<And>j. \<bar>sint (?c j)\<bar> \<le> 1944"
    by (rule scale_bound, rule sint_raw_draw)+
  have "- 1944 \<le> sint v \<and> sint v \<le> 1944" if "v \<in> set ?s" for v
  proof -
    from that len obtain k where k: "k < 2 * n" "v = ?s ! k"
      by (metis in_set_conv_nth)
    show ?thesis
    proof (cases "even k")
      case True
      then obtain s where "k = 2 * s" by (elim evenE)
      with k have "s < n" by simp
      then have "?s ! (2 * s) = ?a s"
        by (intro iq_fill_even) simp_all
      with k \<open>k = 2 * s\<close> ab(1) [of s] show ?thesis by (simp add: abs_le_iff)
    next
      case False
      then obtain s where "k = 2 * s + 1" by (elim oddE)
      with k have "s < n" by simp
      then have "?s ! (2 * s + 1) = ?c s"
        by (intro iq_fill_odd) simp_all
      with k \<open>k = 2 * s + 1\<close> ab(2) [of s] show ?thesis by (simp add: abs_le_iff)
    qed
  qed
  then have "\<forall>v\<in>set ?s. - 1944 \<le> sint v \<and> sint v \<le> 1944"
    by blast
  moreover from len assms have "?s \<noteq> []" by auto
  ultimately show ?thesis
    unfolding generate_white_noise_nat by blast
qed

theorem generate_white_noise_bounds_witness:
  "0 < (2::nat) \<and>
   (\<exists>samples g'. generate_white_noise (\<lambda>_. 0) (int 2) (\<lambda>k. 1000 * k) = Inr (samples, g') \<and>
      samples \<noteq> [] \<and> (\<forall>v\<in>set samples. - 1944 \<le> sint v \<and> sint v \<le> 1944))"
  using generate_white_noise_bounds [of 2 "\<lambda>_. 0" "\<lambda>k. 1000 * k"] by simp

text \<open>
  Claim C2.  For every number of samples \<open>n\<close>, \<^verbatim>\<open>generate_white_noise\<close> returns a buffer of
  length exactly \<open>2 * n\<close>; its element at index \<open>2 * s\<close> is the scaled I value of slot \<open>s\<close>
  (the \<open>s\<close>-th element of the first array drawn) and its element at index \<open>2 * s + 1\<close>
  the scaled Q value of slot \<open>s\<close> (second array drawn).
\<close>

theorem generate_white_noise_layout:
  "\<exists>i_raw g1 q_raw g2 samples.
      randint (- 2047) 2048 (int n) g = Inr (i_raw, g1) \<and>
      randint (- 2047) 2048 (int n) g1 = Inr (q_raw, g2) \<and>
      generate_white_noise junk (int n) g = Inr (samples, g2) \<and>
      length samples = 2 * n \<and>
      (\<forall>s<n. samples ! (2 * s) = scale_samples i_raw ! s \<and>
              samples ! (2 * s + 1) = scale_samples q_raw ! s)"
proof -
  let ?a = "\<lambda>j. astype_int16 (mul_095 (word_of_int (uniform_draw (- 2047) 2048 (g j))))"
  let ?c = "\<lambda>j. astype_int16 (mul_095 (word_of_int (uniform_draw (- 2047) 2048 (g (n + j)))))"
  let ?b = "np_empty (2 * n) junk :: int16 list"
  let ?s = "strided_fill (strided_fill ?b 0 2 ?a n) (Suc 0) 2 ?c n"
  let ?i = "map (\<lambda>k. word_of_int (uniform_draw (- 2047) 2048 (g k))) [0..<n] :: int16 list"
  let ?q = "map (\<lambda>k. word_of_int (uniform_draw (- 2047) 2048 (advance n g k))) [0..<n] :: int16 list"
  have "length ?s = 2 * n"
    by (simp add: length_strided_fill)
  moreover have "?s ! (2 * s) = scale_samples ?i ! s \<and> ?s ! (2 * s + 1) = scale_samples ?q ! s"
    if "s < n" for s
  proof -
    from that have "?s ! (2 * s) = ?a s"
      by (intro iq_fill_even) simp_all
    moreover from that have "?s ! (2 * s + 1) = ?c s"
      by (intro iq_fill_odd) simp_all
    moreover from that have "scale_samples ?i ! s = ?a s" "scale_samples ?q ! s = ?c s"
      by (simp_all add: scale_samples_def advance_def add.commute)
    ultimately show ?thesis by (simp only:)
  qed
  ultimately show ?thesis
    unfolding generate_white_noise_nat randint_nat by blast
qed


lemma scale_samples_eval:
  "map sint (scale_samples [word_of_int (- 2047), word_of_int (- 1047)]) = [- 1944, - 994]"
  "map sint (scale_samples [word_of_int (- 47), word_of_int 953]) = [- 44, 905]"
  by (simp_all only: scale_samples_def list.map) (simp_all add: scale_eval)

theorem generate_white_noise_layout_witness:
  "\<exists>samples g'.
      generate_white_noise (\<lambda>_. 0) (int 2) (\<lambda>k. 1000 * k) = Inr (samples, g') \<and>
      length samples = 4 \<and>
      map sint samples = [- 1944, - 44, - 994, 905]"
proof -
  let ?g = "\<lambda>k::nat. 1000 * k"
  from generate_white_noise_layout [of 2 ?g "\<lambda>_. 0"]
  obtain i_raw g1 q_raw g2 samples where
    r1: "randint (- 2047) 2048 (int 2) ?g = Inr (i_raw, g1)" and
    r2: "randint (- 2047) 2048 (int 2) g1 = Inr (q_raw, g2)" and
    gen: "generate_white_noise (\<lambda>_. 0) (int 2) ?g = Inr (samples, g2)" and
    len: "length samples = 2 * 2" and
    lay: "\<forall>s<2. samples ! (2 * s) = scale_samples i_raw ! s \<and>
                  samples ! (2 * s + 1) = scale_samples q_raw ! s"
    by blast
  have two: "[0..<2] = [0, Suc 0]" by (simp add: upt_rec numeral_2_eq_2)
  from r1 have i: "i_raw = [word_of_int (- 2047), word_of_int (- 1047)]" and g1: "g1 = advance 2 ?g"
    unfolding randint_nat by (simp_all add: two uniform_draw_def)
  from r2 have q: "q_raw = [word_of_int (- 47), word_of_int 953]"
    unfolding randint_nat g1 by (simp add: two uniform_draw_def advance_def)
  from lay [rule_format, of 0] have l0: "samples ! (2 * 0) = scale_samples i_raw ! 0 \<and>
      samples ! (2 * 0 + 1) = scale_samples q_raw ! 0" by simp
  from lay [rule_format, of 1] have l1: "samples ! (2 * 1) = scale_samples i_raw ! 1 \<and>
      samples ! (2 * 1 + 1) = scale_samples q_raw ! 1" by simp
  have si: "map sint (scale_samples i_raw) ! 0 = - 1944" "map sint (scale_samples i_raw) ! 1 = - 994"
    unfolding i scale_samples_eval by simp_all
  have sq: "map sint (scale_samples q_raw) ! 0 = - 44" "map sint (scale_samples q_raw) ! 1 = 905"
    unfolding q scale_samples_eval by simp_all
  have li: "length (scale_samples i_raw) = 2" "length (scale_samples q_raw) = 2"
    by (simp_all add: i q scale_samples_def)
  from len obtain a b c d where abcd: "samples = [a, b, c, d]"
    by (auto simp: length_Suc_conv numeral_eq_Suc)
  from l0 l1 si sq li have "sint a = - 1944" "sint b = - 44" "sint c = - 994" "sint d = 905"
    by (simp_all add: abcd numeral_2_eq_2 numeral_3_eq_3)
  with abcd have "map sint samples = [- 1944, - 44, - 994, 905]" by simp
  with gen len show ?thesis by auto
qed

section \<open>Dual-channel interleaving\<close>

lemma quad_fill_nth:
  fixes buf :: "'a list"
  assumes len: "length buf = 4 * n" and s: "s < n"
  shows "strided_fill (strided_fill (strided_fill (strided_fill buf 0 4 a n) (Suc 0) 4 b n) 2 4 c n) 3 4 e n ! (4 * s) = a s"
    and "strided_fill (strided_fill (strided_fill (strided_fill buf 0 4 a n) (Suc 0) 4 b n) 2 4 c n) 3 4 e n ! (4 * s + 1) = b s"
    and "strided_fill (strided_fill (strided_fill (strided_fill buf 0 4 a n) (Suc 0) 4 b n) 2 4 c n) 3 4 e n ! (4 * s + 2) = c s"
    and "strided_fill (strided_fill (strided_fill (strided_fill buf 0 4 a n) (Suc 0) 4 b n) 2 4 c n) 3 4 e n ! (4 * s + 3) = e s"
proof -
  let ?f1 = "strided_fill buf 0 4 a n"
  let ?f2 = "strided_fill ?f1 (Suc 0) 4 b n"
  let ?f3 = "strided_fill ?f2 2 4 c n"
  let ?f4 = "strided_fill ?f3 3 4 e n"
  have l: "length ?f1 = 4 * n" "length ?f2 = 4 * n" "length ?f3 = 4 * n"
    by (simp_all add: length_strided_fill len)
  have m0: "\<forall>j<n. 4 * s \<noteq> 3 + 4 * j" "\<forall>j<n. 4 * s \<noteq> 2 + 4 * j" "\<forall>j<n. 4 * s \<noteq> Suc 0 + 4 * j"
    by presburger+
  have m1: "\<forall>j<n. 4 * s + 1 \<noteq> 3 + 4 * j" "\<forall>j<n. 4 * s + 1 \<noteq> 2 + 4 * j"
    by presburger+
  have m2: "\<forall>j<n. 4 * s + 2 \<noteq> 3 + 4 * j"
    by presburger
  have "?f4 ! (4 * s) = ?f3 ! (4 * s)" using m0(1) by (rule strided_fill_miss)
  also have "\<dots> = ?f2 ! (4 * s)" using m0(2) by (rule strided_fill_miss)
  also have "\<dots> = ?f1 ! (4 * s)" using m0(3) by (rule strided_fill_miss)
  also have "\<dots> = a s" using strided_fill_hit [of 4 s n 0 buf a] s len by simp
  finally show "?f4 ! (4 * s) = a s" .
  have "?f4 ! (4 * s + 1) = ?f3 ! (4 * s + 1)" using m1(1) by (rule strided_fill_miss)
  also have "\<dots> = ?f2 ! (4 * s + 1)" using m1(2) by (rule strided_fill_miss)
  also have "\<dots> = b s" using strided_fill_hit [of 4 s n "Suc 0" ?f1 b] s l by simp
  finally show "?f4 ! (4 * s + 1) = b s" .
  have "?f4 ! (4 * s + 2) = ?f3 ! (4 * s + 2)" using m2 by (rule strided_fill_miss)
  also have "\<dots> = c s" using strided_fill_hit [of 4 s n 2 ?f2 c] s l by (simp add: add.commute)
  finally show "?f4 ! (4 * s + 2) = c s" .
  show "?f4 ! (4 * s + 3) = e s"
    using strided_fill_hit [of 4 s n 3 ?f3 e] s l by (simp add: add.commute)
qed

lemma get_strided_pair:
  assumes "length ch = 2 * n"
  shows "get_strided ch 0 2 = map (\<lambda>j. ch ! (2 * j)) [0..<n]"
    and "get_strided ch (Suc 0) 2 = map (\<lambda>j. ch ! (2 * j + 1)) [0..<n]"
  using assms by (simp_all add: get_strided_def)

lemma interleave_dual_result:
  assumes "length ch0 = 2 * n" "length ch1 = 2 * n"
  shows "interleave_dual junk n ch0 ch1 =
     Inr (strided_fill (strided_fill (strided_fill (strided_fill (np_empty (4 * n) junk) 0 4
            (\<lambda>j. ch0 ! (2 * j)) n) (Suc 0) 4 (\<lambda>j. ch0 ! (2 * j + 1)) n) 2 4
            (\<lambda>j. ch1 ! (2 * j)) n) 3 4 (\<lambda>j. ch1 ! (2 * j + 1)) n)"
proof -
  have fc: "\<And>buf start (f :: nat \<Rightarrow> 'a).
      strided_fill buf start 4 (\<lambda>j. map f [0..<n] ! j) n = strided_fill buf start 4 f n"
    unfolding strided_fill_def by (rule fold_cong) simp_all
  have ss: "\<And>buf start (f :: nat \<Rightarrow> 'a). slice_len (length buf) start 4 = n \<Longrightarrow>
      set_strided buf start 4 (map f [0..<n]) = Inr (strided_fill buf start 4 f n)"
    using set_strided_same_length fc by (metis diff_zero length_map length_upt)
  have n4: "n * 2 * 2 = 4 * n" by simp
  show ?thesis
    unfolding interleave_dual_def Let_def get_strided_pair [OF assms(1)]
      get_strided_pair [OF assms(2)] One_nat_def n4
    by (simp add: ss length_strided_fill)
qed

lemma iq_fill_eq:
  assumes "length ch = 2 * n" "length buf = 2 * n"
  shows "strided_fill (strided_fill buf 0 2 (\<lambda>j. ch ! (2 * j)) n) (Suc 0) 2
           (\<lambda>j. ch ! (2 * j + 1)) n = ch"
proof (rule nth_equalityI)
  show "length (strided_fill (strided_fill buf 0 2 (\<lambda>j. ch ! (2 * j)) n) (Suc 0) 2
           (\<lambda>j. ch ! (2 * j + 1)) n) = length ch"
    using assms by (simp add: length_strided_fill)
next
  fix k
  assume "k < length (strided_fill (strided_fill buf 0 2 (\<lambda>j. ch ! (2 * j)) n) (Suc 0) 2
           (\<lambda>j. ch ! (2 * j + 1)) n)"
  then have k: "k < 2 * n" using assms by (simp add: length_strided_fill)
  show "strided_fill (strided_fill buf 0 2 (\<lambda>j. ch ! (2 * j)) n) (Suc 0) 2
           (\<lambda>j. ch ! (2 * j + 1)) n ! k = ch ! k"
  proof (cases "even k")
    case True
    then obtain s where ks: "k = 2 * s" by (elim evenE)
    with k have "s < n" by simp
    with assms(2) show ?thesis
      unfolding ks
      using iq_fill_even [of buf n s "\<lambda>j. ch ! (2 * j)" "\<lambda>j. ch ! (2 * j + 1)"] by simp
  next
    case False
    then obtain s where ks: "k = 2 * s + 1" by (elim oddE)
    with k have "s < n" by simp
    with assms(2) show ?thesis
      unfolding ks
      using iq_fill_odd [of buf n s "\<lambda>j. ch ! (2 * j)" "\<lambda>j. ch ! (2 * j + 1)"] by simp
  qed
qed

lemma mset_sum_nth: "mset xs = (\<Sum>k<length xs. {#xs ! k#})"
proof (induction xs rule: rev_induct)
  case Nil
  then show ?case by simp
next
  case (snoc x xs)
  have "(\<Sum>k<length xs. {#(xs @ [x]) ! k#}) = (\<Sum>k<length xs. {#xs ! k#})"
    by (rule sum.cong) (simp_all add: nth_append)
  with snoc show ?case by simp
qed

lemma sum_pairs:
  fixes f :: "nat \<Rightarrow> 'b::comm_monoid_add"
  shows "(\<Sum>k<2 * n. f k) = (\<Sum>s<n. f (2 * s) + f (2 * s + 1))"
  by (induction n) (simp_all add: add.assoc)

lemma sum_quads:
  fixes f :: "nat \<Rightarrow> 'b::comm_monoid_add"
  shows "(\<Sum>k<4 * n. f k) = (\<Sum>s<n. f (4 * s) + f (4 * s + 1) + f (4 * s + 2) + f (4 * s + 3))"
proof (induction n)
  case 0
  then show ?case by simp
next
  case (Suc n)
  have eq: "4 * Suc n = Suc (Suc (Suc (Suc (4 * n))))" by simp
  have "sum f {..<4 * Suc n} =
      sum f {..<4 * n} + f (4 * n) + f (Suc (4 * n)) + f (Suc (Suc (4 * n))) +
        f (Suc (Suc (Suc (4 * n))))"
    unfolding eq sum.lessThan_Suc ..
  then show ?case
    using Suc by (simp add: add.assoc numeral_3_eq_3 numeral_2_eq_2)
qed

lemma mset_interleaved:
  assumes "length d = 4 * n" "length ch0 = 2 * n" "length ch1 = 2 * n"
    and "\<forall>s<n. d ! (4 * s) = ch0 ! (2 * s) \<and> d ! (4 * s + 1) = ch0 ! (2 * s + 1) \<and>
                d ! (4 * s + 2) = ch1 ! (2 * s) \<and> d ! (4 * s + 3) = ch1 ! (2 * s + 1)"
  shows "mset d = mset ch0 + mset ch1"
proof -
  have "mset d = (\<Sum>s<n. {#d ! (4 * s)#} + {#d ! (4 * s + 1)#} + {#d ! (4 * s + 2)#} + {#d ! (4 * s + 3)#})"
    unfolding mset_sum_nth [of d] assms(1) by (rule sum_quads)
  also have "\<dots> = (\<Sum>s<n. ({#ch0 ! (2 * s)#} + {#ch0 ! (2 * s + 1)#}) +
                        ({#ch1 ! (2 * s)#} + {#ch1 ! (2 * s + 1)#}))"
    using assms(4) by (intro sum.cong) (simp_all add: add.assoc)
  also have "\<dots> = (\<Sum>s<n. {#ch0 ! (2 * s)#} + {#ch0 ! (2 * s + 1)#}) +
                    (\<Sum>s<n. {#ch1 ! (2 * s)#} + {#ch1 ! (2 * s + 1)#})"
    by (rule sum.distrib)
  also have "\<dots> = mset ch0 + mset ch1"
    unfolding mset_sum_nth [of ch0] mset_sum_nth [of ch1] assms(2,3) sum_pairs ..
  finally show ?thesis .
qed

lemma interleave_dual_nth:
  assumes "length ch0 = 2 * n" "length ch1 = 2 * n"
  shows "\<exists>d. interleave_dual junk n ch0 ch1 = Inr d \<and> length d = 4 * n \<and>
          (\<forall>s<n. d ! (4 * s) = ch0 ! (2 * s) \<and> d ! (4 * s + 1) = ch0 ! (2 * s + 1) \<and>
                  d ! (4 * s + 2) = ch1 ! (2 * s) \<and> d ! (4 * s + 3) = ch1 ! (2 * s + 1))"
proof -
  let ?b = "np_empty (4 * n) junk"
  let ?d = "strided_fill (strided_fill (strided_fill (strided_fill ?b 0 4
            (\<lambda>j. ch0 ! (2 * j)) n) (Suc 0) 4 (\<lambda>j. ch0 ! (2 * j + 1)) n) 2 4
            (\<lambda>j. ch1 ! (2 * j)) n) 3 4 (\<lambda>j. ch1 ! (2 * j + 1)) n"
  have lb: "length ?b = 4 * n" by simp
  have "length ?d = 4 * n"
    by (simp add: length_strided_fill)
  moreover have "?d ! (4 * s) = ch0 ! (2 * s) \<and> ?d ! (4 * s + 1) = ch0 ! (2 * s + 1) \<and>
      ?d ! (4 * s + 2) = ch1 ! (2 * s) \<and> ?d ! (4 * s + 3) = ch1 ! (2 * s + 1)" if "s < n" for s
    using quad_fill_nth [OF lb that, of "\<lambda>j. ch0 ! (2 * j)" "\<lambda>j. ch0 ! (2 * j + 1)"
        "\<lambda>j. ch1 ! (2 * j)" "\<lambda>j. ch1 ! (2 * j + 1)"]
    by (simp only: simp_thms)
  ultimately show ?thesis
    unfolding interleave_dual_result [OF assms] by blast
qed

text \<open>
  Claim C3.  For two per-channel buffers of length \<open>2 * n\<close>, the interleaving step
  returns a transfer buffer of length \<open>4 * n\<close> whose elements at offsets \<open>4 * s\<close>,
  \<open>4 * s + 1\<close>, \<open>4 * s + 2\<close>, \<open>4 * s + 3\<close> are the I and Q values of slot \<open>s\<close> of channel
  0, then those of channel 1, for every slot \<open>s < n\<close>.
\<close>

theorem interleave_dual_layout:
  assumes "length ch0 = 2 * n" "length ch1 = 2 * n"
  shows "\<exists>d. interleave_dual junk n ch0 ch1 = Inr d \<and> length d = 4 * n \<and>
          (\<forall>s<n. d ! (4 * s) = ch0 ! (2 * s) \<and> d ! (4 * s + 1) = ch0 ! (2 * s + 1) \<and>
                  d ! (4 * s + 2) = ch1 ! (2 * s) \<and> d ! (4 * s + 3) = ch1 ! (2 * s + 1))"
  using assms by (rule interleave_dual_nth)

lemma list8:
  assumes "length d = 8"
  shows "d = [d ! 0, d ! 1, d ! 2, d ! 3, d ! 4, d ! 5, d ! 6, d ! 7]"
proof -
  from assms obtain a b c e f g h i where "d = [a, b, c, e, f, g, h, i]"
    by (auto simp: length_Suc_conv numeral_eq_Suc)
  then show ?thesis by simp
qed

theorem interleave_dual_layout_witness:
  "interleave_dual (\<lambda>_. 0) 2 [1, 2, 3, 4] [5, 6, 7, 8] = Inr [1, 2, 5, 6, 3, 4, 7, 8 :: int]"
proof -
  from interleave_dual_layout [of "[1, 2, 3, 4 :: int]" 2 "[5, 6, 7, 8]" "\<lambda>_. 0"]
  obtain d where d: "interleave_dual (\<lambda>_. 0) 2 [1, 2, 3, 4] [5, 6, 7, 8 :: int] = Inr d"
    and len: "length d = 4 * 2"
    and lay: "\<forall>s<2. d ! (4 * s) = [1, 2, 3, 4 :: int] ! (2 * s) \<and>
                  d ! (4 * s + 1) = [1, 2, 3, 4] ! (2 * s + 1) \<and>
                  d ! (4 * s + 2) = [5, 6, 7, 8] ! (2 * s) \<and>
                  d ! (4 * s + 3) = [5, 6, 7, 8] ! (2 * s + 1)"
    by auto
  from lay [rule_format, of 0] lay [rule_format, of 1]
  have "d ! 0 = 1" "d ! 1 = 2" "d ! 2 = 5" "d ! 3 = 6" "d ! 4 = 3" "d ! 5 = 4" "d ! 6 = 7" "d ! 7 = 8"
    by (simp_all add: numeral_2_eq_2 numeral_3_eq_3)
  with list8 [of d] len have "d = [1, 2, 5, 6, 3, 4, 7, 8]" by simp
  with d show ?thesis by simp
qed

text \<open>
  Claim C10.  Dual-channel interleaving is a lossless permutation with an exact inverse:
  for buffers of length \<open>2 * n\<close>, the four stride-4 subsequences of the transfer buffer
  starting at offsets 0, 1, 2, 3 are the even-indexed and the odd-indexed elements of
  channel 0 and of channel 1; de-interleaving gives back both buffers; and the transfer
  buffer holds the same elements as the two inputs together, with the same
  multiplicities.
\<close>

theorem interleave_dual_inverse:
  assumes "length ch0 = 2 * n" "length ch1 = 2 * n"
  shows "\<exists>d. interleave_dual junk n ch0 ch1 = Inr d \<and>
          get_strided d 0 4 = get_strided ch0 0 2 \<and>
          get_strided d 1 4 = get_strided ch0 1 2 \<and>
          get_strided d 2 4 = get_strided ch1 0 2 \<and>
          get_strided d 3 4 = get_strided ch1 1 2 \<and>
          deinterleave_dual junk' n d = Inr (ch0, ch1) \<and>
          mset d = mset ch0 + mset ch1"
proof -
  from interleave_dual_nth [OF assms, of junk]
  obtain d where d: "interleave_dual junk n ch0 ch1 = Inr d" and len: "length d = 4 * n"
    and lay: "\<forall>s<n. d ! (4 * s) = ch0 ! (2 * s) \<and> d ! (4 * s + 1) = ch0 ! (2 * s + 1) \<and>
                  d ! (4 * s + 2) = ch1 ! (2 * s) \<and> d ! (4 * s + 3) = ch1 ! (2 * s + 1)"
    by blast
  have g0: "get_strided d 0 4 = map (\<lambda>j. ch0 ! (2 * j)) [0..<n]"
    using lay by (simp add: get_strided_def len)
  have g1: "get_strided d 1 4 = map (\<lambda>j. ch0 ! (2 * j + 1)) [0..<n]"
    using lay by (simp add: get_strided_def len add.commute)
  have g2: "get_strided d 2 4 = map (\<lambda>j. ch1 ! (2 * j)) [0..<n]"
    using lay by (simp add: get_strided_def len add.commute)
  have g3: "get_strided d 3 4 = map (\<lambda>j. ch1 ! (2 * j + 1)) [0..<n]"
    using lay by (simp add: get_strided_def len add.commute)
  have fc: "\<And>buf start (f :: nat \<Rightarrow> 'a).
      strided_fill buf start 2 (\<lambda>j. map f [0..<n] ! j) n = strided_fill buf start 2 f n"
    unfolding strided_fill_def by (rule fold_cong) simp_all
  have ss: "\<And>buf start (f :: nat \<Rightarrow> 'a). slice_len (length buf) start 2 = n \<Longrightarrow>
      set_strided buf start 2 (map f [0..<n]) = Inr (strided_fill buf start 2 f n)"
    using set_strided_same_length fc by (metis diff_zero length_map length_upt)
  have a1: "set_strided (np_empty (2 * n) junk') 0 2 (map (\<lambda>j. ch ! (2 * j)) [0..<n]) =
      Inr (strided_fill (np_empty (2 * n) junk') 0 2 (\<lambda>j. ch ! (2 * j)) n)" for ch :: "'a list"
    by (rule ss) simp
  have a2: "set_strided (strided_fill (np_empty (2 * n) junk') 0 2 (\<lambda>j. ch ! (2 * j)) n) 1 2
        (map (\<lambda>j. ch ! (2 * j + 1)) [0..<n]) = Inr ch" if "length ch = 2 * n" for ch :: "'a list"
  proof -
    have "set_strided (strided_fill (np_empty (2 * n) junk') 0 2 (\<lambda>j. ch ! (2 * j)) n) (Suc 0) 2
        (map (\<lambda>j. ch ! (2 * j + 1)) [0..<n]) =
        Inr (strided_fill (strided_fill (np_empty (2 * n) junk') 0 2 (\<lambda>j. ch ! (2 * j)) n)
          (Suc 0) 2 (\<lambda>j. ch ! (2 * j + 1)) n)"
      by (rule ss) (simp add: length_strided_fill)
    also have "\<dots> = Inr ch"
      using iq_fill_eq [OF that, of "np_empty (2 * n) junk'"] by simp
    finally show ?thesis by (simp only: One_nat_def)
  qed
  have inv: "deinterleave_dual junk' n d = Inr (ch0, ch1)"
    unfolding deinterleave_dual_def g0 g1 g2 g3
    by (simp only: a1 a2 [OF assms(1)] a2 [OF assms(2)] sum.case)
  have ms: "mset d = mset ch0 + mset ch1"
    using len assms lay by (rule mset_interleaved)
  from d g0 g1 g2 g3 inv ms show ?thesis
    by (simp add: get_strided_pair [OF assms(1)] get_strided_pair [OF assms(2)])
qed

theorem interleave_dual_inverse_witness:
  "\<exists>d. interleave_dual (\<lambda>_. 0) 2 [1, 2, 3, 4] [5, 6, 7, 8 :: int] = Inr d \<and>
      get_strided d 0 4 = get_strided [1, 2, 3, 4] 0 2 \<and>
      get_strided d 1 4 = get_strided [1, 2, 3, 4] 1 2 \<and>
      get_strided d 2 4 = get_strided [5, 6, 7, 8] 0 2 \<and>
      get_strided d 3 4 = get_strided [5, 6, 7, 8] 1 2 \<and>
      deinterleave_dual (\<lambda>_. 9) 2 d = Inr ([1, 2, 3, 4], [5, 6, 7, 8]) \<and>
      mset d = mset [1, 2, 3, 4] + mset [5, 6, 7, 8]"
  using interleave_dual_inverse [of "[1, 2, 3, 4 :: int]" 2 "[5, 6, 7, 8]" "\<lambda>_. 0" "\<lambda>_. 9"]
  by simp

section \<open>The gain-stage policy\<close>

lemma starts_with_prefix: "starts_with xs ys \<longleftrightarrow> prefix xs ys"
  by (induction xs ys rule: starts_with.induct) simp_all

lemma contains_sublist: "contains xs ys \<longleftrightarrow> sublist xs ys"
  by (induction ys) (simp_all add: starts_with_prefix sublist_Cons_right)

lemma trace_deliver: "trace (deliver e s) = trace s \<or> trace (deliver e s) = trace s @ [Sigint]"
  by (simp add: deliver_def signal_handler_def)

lemma calls_of_append [simp]: "calls_of (xs @ ys) = calls_of xs @ calls_of ys"
  by (simp add: calls_of_def)

lemma calls_of_simps [simp]:
  "calls_of [] = []" "calls_of (Sigint # tr) = calls_of tr"
  "calls_of (Poll b # tr) = calls_of tr" "calls_of (Call c ok # tr) = c # calls_of tr"
  by (simp_all add: calls_of_def)

lemma calls_of_dev_call:
  "calls_of (trace (snd (dev_call e c s))) = calls_of (trace s) @ [c]"
  by (simp add: dev_call_def deliver_def signal_handler_def Let_def)

lemma calls_of_set_gain_stages:
  "calls_of (trace (set_gain_stages e ch stages s)) =
     calls_of (trace s) @
     map (\<lambda>stage. SetGainStage ch stage (if sublist ''dsa'' (lower stage) then 0 else 60)) stages"
  by (induction stages arbitrary: s) (simp_all add: calls_of_dev_call contains_sublist Let_def)

lemma lower_eval:
  "lower ''txvga1'' = ''txvga1''" "lower ''dsa1'' = ''dsa1''" "lower ''dsa2'' = ''dsa2''"
  "lower ''TXVGA1'' = ''txvga1''" "lower ''DSA_Main'' = ''dsa_main''"
  by (simp_all add: lower_def lower_char_def)

lemma sublist_eval:
  "\<not> sublist ''dsa'' ''txvga1''" "sublist ''dsa'' ''dsa1''" "sublist ''dsa'' ''dsa2''"
  "sublist ''dsa'' ''dsa_main''"
  unfolding contains_sublist [symmetric] by simp_all

text \<open>
  Claim C4.  For every sequence of gain-stage names, the stage loop makes exactly one
  \<^verbatim>\<open>set_gain_stage\<close> call per stage, in order, with the value 0 when the lowercased name
  contains \<^verbatim>\<open>dsa\<close> and 60 otherwise, whatever the outcomes of these calls; for the names
  \<^verbatim>\<open>txvga1\<close>, \<^verbatim>\<open>dsa1\<close>, \<^verbatim>\<open>dsa2\<close> the values are 60, 0, 0.
\<close>

theorem gain_stage_policy:
  "calls_of (trace (set_gain_stages e ch stages s)) =
     calls_of (trace s) @
     map (\<lambda>stage. SetGainStage ch stage (if sublist ''dsa'' (lower stage) then 0 else 60)) stages
   \<and> calls_of (trace (set_gain_stages e ch [''txvga1'', ''dsa1'', ''dsa2''] s)) =
     calls_of (trace s) @
     [SetGainStage ch ''txvga1'' 60, SetGainStage ch ''dsa1'' 0, SetGainStage ch ''dsa2'' 0]"
  by (simp only: calls_of_set_gain_stages list.map lower_eval sublist_eval if_True if_False simp_thms)

theorem gain_stage_policy_witness:
  "calls_of (trace (set_gain_stages quiet_env (CHANNEL_TX 0) [''TXVGA1'', ''DSA_Main'']
      (init quiet_env))) =
     [SetGainStage (CHANNEL_TX 0) ''TXVGA1'' 60, SetGainStage (CHANNEL_TX 0) ''DSA_Main'' 0]"
  using gain_stage_policy [of quiet_env "CHANNEL_TX 0" "[''TXVGA1'', ''DSA_Main'']" "init quiet_env"]
  by (simp add: lower_eval sublist_eval init_def)

section \<open>How runs extend the trace\<close>

lemma dev_deliver [simp]: "dev (deliver e s) = dev s"
  by (simp add: deliver_def signal_handler_def)

lemma dev_dev_call [simp]: "dev (snd (dev_call e c s)) = dev s"
  by (simp add: dev_call_def Let_def)

lemma rng_deliver [simp]: "rng_state (deliver e s) = rng_state s"
  by (simp add: deliver_def signal_handler_def)

lemma rng_dev_call [simp]: "rng_state (snd (dev_call e c s)) = rng_state s"
  by (simp add: dev_call_def Let_def)

lemma extends_refl [simp]: "extends P s s"
  by (simp add: extends_def)

lemma extends_trans:
  assumes "extends P s s1" "extends P s1 s2"
  shows "extends P s s2"
proof -
  from assms(1) obtain n1 where 1: "trace s1 = trace s @ n1" "list_all P n1"
    "running s1 \<longleftrightarrow> running s \<and> Sigint \<notin> set n1" "dev s1 = dev s"
    unfolding extends_def by blast
  from assms(2) obtain n2 where 2: "trace s2 = trace s1 @ n2" "list_all P n2"
    "running s2 \<longleftrightarrow> running s1 \<and> Sigint \<notin> set n2" "dev s2 = dev s1"
    unfolding extends_def by blast
  from 1 2 have "trace s2 = trace s @ (n1 @ n2)" "list_all P (n1 @ n2)"
    "running s2 \<longleftrightarrow> running s \<and> Sigint \<notin> set (n1 @ n2)" "dev s2 = dev s"
    by auto
  then show ?thesis unfolding extends_def by blast
qed

lemma extends_mono:
  assumes "extends P s s'" "\<And>ev. P ev \<Longrightarrow> Q ev"
  shows "extends Q s s'"
  using assms unfolding extends_def list_all_iff by blast

lemma extends_update [simp]:
  "extends P s (s'\<lparr>rng_state := g\<rparr>) = extends P s s'"
  "extends P (s\<lparr>rng_state := g\<rparr>) s' = extends P s s'"
  by (simp_all add: extends_def)

lemma aborts_update [simp]:
  "aborts s (s'\<lparr>rng_state := g\<rparr>) = aborts s s'"
  "aborts (s\<lparr>rng_state := g\<rparr>) s' = aborts s s'"
  by (simp_all add: aborts_def)

lemma stops_update [simp]:
  "stops s (s'\<lparr>rng_state := g\<rparr>) = stops s s'"
  "stops (s\<lparr>rng_state := g\<rparr>) s' = stops s s'"
  by (simp_all add: stops_def)

lemma extends_aborts:
  assumes "extends benign s s1" "aborts s1 s2"
  shows "aborts s s2"
  using assms unfolding aborts_def by (blast intro: extends_trans)

lemma extends_stops:
  assumes "extends benign s s1" "stops s1 s2"
  shows "stops s s2"
  using assms unfolding stops_def by (blast intro: extends_trans)

lemma extends_deliver: "P Sigint \<Longrightarrow> extends P s (deliver e s)"
  by (simp add: extends_def deliver_def signal_handler_def)

lemma extends_event:
  assumes "P ev" "ev \<noteq> Sigint"
  shows "extends P s (s\<lparr>trace := trace s @ [ev]\<rparr>)"
  using assms by (simp add: extends_def)

lemma extends_dev_call:
  assumes "P Sigint" "P (Call c (fst (dev_call e c s)))"
  shows "extends P s (snd (dev_call e c s))"
proof -
  have "extends P s (deliver e s)"
    using assms(1) by (rule extends_deliver)
  moreover have "extends P (deliver e s) (snd (dev_call e c s))"
    using assms(2) by (simp add: dev_call_def Let_def extends_event)
  ultimately show ?thesis by (rule extends_trans)
qed

lemma aborts_dev_call:
  assumes "fatal c" "\<not> fst (dev_call e c s)"
  shows "aborts s (snd (dev_call e c s))"
proof -
  have "extends benign s (deliver e s)"
    by (rule extends_deliver) simp
  moreover have "trace (snd (dev_call e c s)) = trace (deliver e s) @ [Call c False]"
    "running (snd (dev_call e c s)) = running (deliver e s)"
    "dev (snd (dev_call e c s)) = dev (deliver e s)"
    using assms(2) by (simp_all add: dev_call_def Let_def)
  ultimately show ?thesis
    using assms(1) unfolding aborts_def by blast
qed

lemma dev_calls [simp]: "dev (snd (calls e cs s)) = dev s"
proof (induction cs arbitrary: s)
  case Nil
  then show ?case by simp
next
  case (Cons c cs)
  obtain ok s1 where d: "dev_call e c s = (ok, s1)" by (cases "dev_call e c s")
  then have "dev s1 = dev s" using dev_dev_call [of e c s] by simp
  with Cons d show ?case by (cases ok) simp_all
qed

lemma rng_calls [simp]: "rng_state (snd (calls e cs s)) = rng_state s"
proof (induction cs arbitrary: s)
  case Nil
  then show ?case by simp
next
  case (Cons c cs)
  obtain ok s1 where d: "dev_call e c s = (ok, s1)" by (cases "dev_call e c s")
  then have "rng_state s1 = rng_state s" using rng_dev_call [of e c s] by simp
  with Cons d show ?case by (cases ok) simp_all
qed

lemma calls_fatal:
  assumes "\<forall>c\<in>set cs. fatal c"
  shows "case calls e cs s of
           (Inr u, s') \<Rightarrow> extends benign s s'
         | (Inl x, s') \<Rightarrow> x = BladeRFError \<and> aborts s s'"
  using assms
proof (induction cs arbitrary: s)
  case Nil
  then show ?case by simp
next
  case (Cons c cs)
  obtain ok s1 where d: "dev_call e c s = (ok, s1)" by (cases "dev_call e c s")
  show ?case
  proof (cases ok)
    case True
    with d have "extends benign s s1"
      using extends_dev_call [of benign c e s] by simp
    moreover from Cons have "case calls e cs s1 of
           (Inr u, s') \<Rightarrow> extends benign s1 s'
         | (Inl x, s') \<Rightarrow> x = BladeRFError \<and> aborts s1 s'" by simp
    ultimately show ?thesis
      using d True
      by (auto split: prod.splits sum.splits intro: extends_trans extends_aborts)
  next
    case False
    with d Cons.prems have "aborts s s1"
      using aborts_dev_call [of c e s] by simp
    with d False show ?thesis by simp
  qed
qed

lemma calls_nonfatal:
  assumes "\<forall>c\<in>set cs. \<not> fatal c"
  shows "extends benign s (snd (calls e cs s))"
  using assms
proof (induction cs arbitrary: s)
  case Nil
  then show ?case by simp
next
  case (Cons c cs)
  obtain ok s1 where d: "dev_call e c s = (ok, s1)" by (cases "dev_call e c s")
  with Cons.prems have 1: "extends benign s s1"
    using extends_dev_call [of benign c e s] by simp
  show ?case
  proof (cases ok)
    case True
    from Cons have "extends benign s1 (snd (calls e cs s1))" by simp
    with 1 d True show ?thesis by (auto intro: extends_trans)
  next
    case False
    with 1 d show ?thesis by simp
  qed
qed

lemma set_gain_stages_benign: "extends benign s (set_gain_stages e ch stages s)"
proof (induction stages arbitrary: s)
  case Nil
  then show ?case by simp
next
  case (Cons stage rest)
  have "extends benign s (snd (dev_call e (SetGainStage ch stage v) s))" for v
    by (rule extends_dev_call) simp_all
  with Cons show ?case
    by (auto simp: Let_def intro: extends_trans)
qed

lemma dev_set_gain_stages [simp]: "dev (set_gain_stages e ch stages s) = dev s"
  by (induction stages arbitrary: s) (simp_all add: Let_def)

lemma rng_set_gain_stages [simp]: "rng_state (set_gain_stages e ch stages s) = rng_state s"
  by (induction stages arbitrary: s) (simp_all add: Let_def)

lemma configure_channel_summary:
  "case configure_channel st e idx f g s of
     (Inr ch, s') \<Rightarrow> ch = CHANNEL_TX idx \<and> extends benign s s'
   | (Inl x, s') \<Rightarrow> x = BladeRFError \<and> aborts s s'"
proof -
  let ?ch = "CHANNEL_TX idx"
  let ?cs = "[SetFrequency ?ch f, GetFrequency ?ch,
              SetSampleRate ?ch (SAMPLE_RATE_HZ st), GetSampleRate ?ch,
              SetBandwidth ?ch (BANDWIDTH_HZ st), GetBandwidth ?ch,
              SetGain ?ch g, GetGain ?ch, GetGainStages ?ch]"
  obtain r s1 where c: "calls e ?cs s = (r, s1)" by (cases "calls e ?cs s")
  have sum: "case calls e ?cs s of
      (Inr u, s') \<Rightarrow> extends benign s s' | (Inl x, s') \<Rightarrow> x = BladeRFError \<and> aborts s s'"
    by (rule calls_fatal) simp
  show ?thesis
  proof (cases r)
    case (Inl x)
    then show ?thesis
      using c sum by (simp add: configure_channel_def)
  next
    case (Inr u)
    with c sum have 1: "extends benign s s1" by simp
    let ?s2 = "set_gain_stages e ?ch (stage_names e ?ch) s1"
    have 2: "extends benign s1 ?s2" by (rule set_gain_stages_benign)
    have 3: "extends benign ?s2 (snd (dev_call e (SetBiasTee ?ch True) ?s2))"
      by (rule extends_dev_call) simp_all
    from 1 2 3 have "extends benign s (snd (dev_call e (SetBiasTee ?ch True) ?s2))"
      by (blast intro: extends_trans)
    with c Inr show ?thesis
      by (simp add: configure_channel_def Let_def)
  qed
qed

lemma in_calls_of: "c \<in> set (calls_of tr) \<longleftrightarrow> (\<exists>ok. Call c ok \<in> set tr)"
proof (induction tr)
  case Nil
  then show ?case by simp
next
  case (Cons ev tr)
  then show ?case by (cases ev) auto
qed

lemma calls_calls_of:
  "\<exists>k\<le>length cs. calls_of (trace (snd (calls e cs s))) = calls_of (trace s) @ take k cs \<and>
      (fst (calls e cs s) = Inr () \<longrightarrow> k = length cs)"
proof (induction cs arbitrary: s)
  case Nil
  then show ?case by simp
next
  case (Cons c cs)
  obtain ok s1 where d: "dev_call e c s = (ok, s1)" by (cases "dev_call e c s")
  then have 1: "calls_of (trace s1) = calls_of (trace s) @ [c]"
    using calls_of_dev_call [of e c s] by simp
  show ?case
  proof (cases ok)
    case True
    from Cons [of s1] obtain k where k: "k \<le> length cs"
      "calls_of (trace (snd (calls e cs s1))) = calls_of (trace s1) @ take k cs"
      "fst (calls e cs s1) = Inr () \<longrightarrow> k = length cs" by blast
    with 1 d True show ?thesis
      by (intro exI [of _ "Suc k"]) simp
  next
    case False
    with 1 d show ?thesis
      by (intro exI [of _ "Suc 0"]) simp
  qed
qed

lemma benign_failed_call:
  assumes "list_all benign new" "Call c False \<in> set new"
  shows "\<not> fatal c"
  using assms by (auto simp: list_all_iff)

lemma configure_channel_calls_of:
  assumes "fst (configure_channel st e idx f g s) = Inr ch"
  shows "calls_of (trace (snd (configure_channel st e idx f g s))) =
     calls_of (trace s) @
     [SetFrequency (CHANNEL_TX idx) f, GetFrequency (CHANNEL_TX idx),
      SetSampleRate (CHANNEL_TX idx) (SAMPLE_RATE_HZ st), GetSampleRate (CHANNEL_TX idx),
      SetBandwidth (CHANNEL_TX idx) (BANDWIDTH_HZ st), GetBandwidth (CHANNEL_TX idx),
      SetGain (CHANNEL_TX idx) g, GetGain (CHANNEL_TX idx), GetGainStages (CHANNEL_TX idx)] @
     map (\<lambda>stage. SetGainStage (CHANNEL_TX idx) stage
                    (if sublist ''dsa'' (lower stage) then 0 else 60))
         (stage_names e (CHANNEL_TX idx)) @
     [SetBiasTee (CHANNEL_TX idx) True]"
proof -
  let ?ch = "CHANNEL_TX idx"
  let ?cs = "[SetFrequency ?ch f, GetFrequency ?ch,
              SetSampleRate ?ch (SAMPLE_RATE_HZ st), GetSampleRate ?ch,
              SetBandwidth ?ch (BANDWIDTH_HZ st), GetBandwidth ?ch,
              SetGain ?ch g, GetGain ?ch, GetGainStages ?ch]"
  obtain r s1 where c: "calls e ?cs s = (r, s1)" by (cases "calls e ?cs s")
  with assms obtain u where r: "r = Inr u"
    by (cases r) (simp_all add: configure_channel_def)
  from calls_calls_of [of ?cs e s] c r
  have "calls_of (trace s1) = calls_of (trace s) @ ?cs" by auto
  with c r show ?thesis
    by (simp add: configure_channel_def Let_def calls_of_dev_call calls_of_set_gain_stages)
qed


section \<open>Channel configuration\<close>

text \<open>
  Claim C5, as the code has it.  \<^verbatim>\<open>configure_channel\<close> returns the channel exactly when
  the four setters, their four read-backs and the enumeration of the gain stages all
  return; it then has attempted every gain stage and the bias tee, whatever these
  calls did.  It raises \<^verbatim>\<open>BladeRFError\<close> exactly when one of those nine calls raised.  A
  failure of \<^verbatim>\<open>set_gain_stage\<close> or \<^verbatim>\<open>set_bias_tee\<close> never propagates.
\<close>

theorem configure_channel_outcome:
  fixes st e idx f g s
  defines "r \<equiv> configure_channel st e idx f g s"
  defines "ch \<equiv> CHANNEL_TX idx"
  defines "unguarded \<equiv> [SetFrequency ch f, GetFrequency ch,
      SetSampleRate ch (SAMPLE_RATE_HZ st), GetSampleRate ch,
      SetBandwidth ch (BANDWIDTH_HZ st), GetBandwidth ch,
      SetGain ch g, GetGain ch, GetGainStages ch]"
  shows "\<exists>new. trace (snd r) = trace s @ new \<and>
      (fst r = Inr ch \<or> fst r = Inl BladeRFError) \<and>
      (fst r = Inr ch \<longleftrightarrow> (\<forall>c\<in>set unguarded. Call c True \<in> set new)) \<and>
      (fst r = Inl BladeRFError \<longleftrightarrow> (\<exists>c\<in>set unguarded. Call c False \<in> set new)) \<and>
      (fst r = Inr ch \<longrightarrow>
         calls_of new = unguarded @
           map (\<lambda>stage. SetGainStage ch stage (if sublist ''dsa'' (lower stage) then 0 else 60))
             (stage_names e ch) @
           [SetBiasTee ch True])"
proof -
  have fatal: "\<forall>c\<in>set unguarded. fatal c"
    by (simp add: unguarded_def)
  have sum: "case r of (Inr c, s') \<Rightarrow> c = ch \<and> extends benign s s'
      | (Inl x, s') \<Rightarrow> x = BladeRFError \<and> aborts s s'"
    unfolding r_def ch_def by (rule configure_channel_summary)
  show ?thesis
  proof (cases "fst r")
    case (Inr c)
    with sum have c: "c = ch" and ext: "extends benign s (snd r)"
      by (auto split: prod.splits)
    from ext obtain new where new: "trace (snd r) = trace s @ new" "list_all benign new"
      unfolding extends_def by blast
    from Inr have "calls_of (trace (snd r)) = calls_of (trace s) @ unguarded @
           map (\<lambda>stage. SetGainStage ch stage (if sublist ''dsa'' (lower stage) then 0 else 60))
             (stage_names e ch) @ [SetBiasTee ch True]"
      unfolding r_def ch_def unguarded_def
      by (simp add: configure_channel_calls_of)
    with new have co: "calls_of new = unguarded @
           map (\<lambda>stage. SetGainStage ch stage (if sublist ''dsa'' (lower stage) then 0 else 60))
             (stage_names e ch) @ [SetBiasTee ch True]"
      by simp
    have ok: "Call c' True \<in> set new" if "c' \<in> set unguarded" for c'
    proof -
      from that co have "c' \<in> set (calls_of new)" by simp
      then obtain b where b: "Call c' b \<in> set new" by (auto simp: in_calls_of)
      moreover from that fatal have "fatal c'" by blast
      ultimately show ?thesis
        using benign_failed_call [OF new(2), of c'] by (cases b) auto
    qed
    have nofail: "Call c' False \<notin> set new" if "c' \<in> set unguarded" for c'
      using that fatal benign_failed_call [OF new(2), of c'] by blast
    from Inr c new co ok nofail show ?thesis
      by (intro exI [of _ new]) auto
  next
    case (Inl x)
    with sum have x: "x = BladeRFError" and ab: "aborts s (snd r)"
      by (auto split: prod.splits)
    from ab obtain mid c where m: "extends benign s mid" "fatal c"
      "trace (snd r) = trace mid @ [Call c False]"
      unfolding aborts_def by blast
    from m(1) obtain pre where pre: "trace mid = trace s @ pre" "list_all benign pre"
      unfolding extends_def by blast
    let ?new = "pre @ [Call c False]"
    have tr: "trace (snd r) = trace s @ ?new"
      using m pre by simp
    obtain r1 s1 where c1: "calls e unguarded s = (r1, s1)" by (cases "calls e unguarded s")
    with Inl have r1: "r1 = Inl x" and s1: "snd r = s1"
      unfolding r_def unguarded_def ch_def
      by (auto simp: configure_channel_def Let_def split: sum.splits)
    from calls_calls_of [of unguarded e s] c1 s1 obtain k where
      "calls_of (trace (snd r)) = calls_of (trace s) @ take k unguarded"
      by auto
    with tr have co: "calls_of pre @ [c] = take k unguarded" by simp
    then have "c \<in> set (take k unguarded)"
      by (metis in_set_conv_decomp)
    then have cin: "c \<in> set unguarded" by (rule in_set_takeD)
    have "distinct unguarded"
      by (simp add: unguarded_def)
    then have "distinct (calls_of pre @ [c])"
      unfolding co by (rule distinct_take)
    then have "c \<notin> set (calls_of pre)" by simp
    then have "Call c True \<notin> set ?new"
      by (simp add: in_calls_of)
    with Inl x tr cin show ?thesis
      by (intro exI [of _ ?new]) auto
  qed
qed

lemmas run_eval =
  configure_channel_def dev_call_def deliver_def signal_handler_def init_def Let_def
  quiet_env_def l1_l2_settings_def l5_settings_def

lemma quiet_configure_channel:
  "fst (configure_channel l1_l2_settings quiet_env 0 1575420000 60 (init quiet_env)) =
     Inr (CHANNEL_TX 0)"
  by (simp add: run_eval)

theorem configure_channel_outcome_witness:
  "fst (configure_channel l1_l2_settings quiet_env 0 1575420000 60 (init quiet_env)) =
     Inr (CHANNEL_TX 0) \<and>
   calls_of (trace (snd (configure_channel l1_l2_settings quiet_env 0 1575420000 60
       (init quiet_env)))) =
     [SetFrequency (CHANNEL_TX 0) 1575420000, GetFrequency (CHANNEL_TX 0),
      SetSampleRate (CHANNEL_TX 0) 5000000, GetSampleRate (CHANNEL_TX 0),
      SetBandwidth (CHANNEL_TX 0) 2000000, GetBandwidth (CHANNEL_TX 0),
      SetGain (CHANNEL_TX 0) 60, GetGain (CHANNEL_TX 0), GetGainStages (CHANNEL_TX 0),
      SetGainStage (CHANNEL_TX 0) ''txvga1'' 60, SetGainStage (CHANNEL_TX 0) ''dsa1'' 0,
      SetGainStage (CHANNEL_TX 0) ''dsa2'' 0, SetBiasTee (CHANNEL_TX 0) True]"
proof -
  let ?r = "configure_channel l1_l2_settings quiet_env 0 1575420000 60 (init quiet_env)"
  from configure_channel_outcome [of l1_l2_settings quiet_env 0 1575420000 60 "init quiet_env"]
  obtain new where new: "trace (snd ?r) = trace (init quiet_env) @ new"
    and co: "fst ?r = Inr (CHANNEL_TX 0) \<longrightarrow>
      calls_of new =
        [SetFrequency (CHANNEL_TX 0) 1575420000, GetFrequency (CHANNEL_TX 0),
         SetSampleRate (CHANNEL_TX 0) (SAMPLE_RATE_HZ l1_l2_settings), GetSampleRate (CHANNEL_TX 0),
         SetBandwidth (CHANNEL_TX 0) (BANDWIDTH_HZ l1_l2_settings), GetBandwidth (CHANNEL_TX 0),
         SetGain (CHANNEL_TX 0) 60, GetGain (CHANNEL_TX 0), GetGainStages (CHANNEL_TX 0)] @
        map (\<lambda>stage. SetGainStage (CHANNEL_TX 0) stage
                       (if sublist ''dsa'' (lower stage) then 0 else 60))
          (stage_names quiet_env (CHANNEL_TX 0)) @
        [SetBiasTee (CHANNEL_TX 0) True]"
    by blast
  from new have "calls_of (trace (snd ?r)) = calls_of new"
    by (simp add: init_def)
  with co quiet_configure_channel show ?thesis
    by (simp add: quiet_env_def l1_l2_settings_def lower_eval sublist_eval)
qed

theorem configure_channel_counterexample:
  "fst (configure_channel l1_l2_settings enum_fails_env 0 1575420000 60 (init enum_fails_env)) =
     Inl BladeRFError \<and>
   Call (SetFrequency (CHANNEL_TX 0) 1575420000) True \<in>
     set (trace (snd (configure_channel l1_l2_settings enum_fails_env 0 1575420000 60
       (init enum_fails_env)))) \<and>
   Call (SetSampleRate (CHANNEL_TX 0) 5000000) True \<in>
     set (trace (snd (configure_channel l1_l2_settings enum_fails_env 0 1575420000 60
       (init enum_fails_env)))) \<and>
   Call (SetBandwidth (CHANNEL_TX 0) 2000000) True \<in>
     set (trace (snd (configure_channel l1_l2_settings enum_fails_env 0 1575420000 60
       (init enum_fails_env)))) \<and>
   Call (SetGain (CHANNEL_TX 0) 60) True \<in>
     set (trace (snd (configure_channel l1_l2_settings enum_fails_env 0 1575420000 60
       (init enum_fails_env))))"
  by (simp add: run_eval enum_fails_env_def)

section \<open>Runs on which the set-up succeeds\<close>

lemma deliver_quiet: "\<not> sigint e (trace s) \<Longrightarrow> deliver e s = s"
  by (simp add: deliver_def)

lemma dev_call_ok:
  "\<not> sigint e (trace s) \<Longrightarrow> \<not> fails e (trace s) c \<Longrightarrow>
     dev_call e c s = (True, s\<lparr>trace := trace s @ [Call c True]\<rparr>)"
  by (simp add: dev_call_def deliver_def)

lemma dev_call_fail:
  "\<not> sigint e (trace s) \<Longrightarrow> fails e (trace s) c \<Longrightarrow>
     dev_call e c s = (False, s\<lparr>trace := trace s @ [Call c False]\<rparr>)"
  by (simp add: dev_call_def deliver_def)

lemma calls_ok:
  assumes "\<And>tr. tr \<noteq> [] \<Longrightarrow> \<not> sigint e tr" "trace s \<noteq> []"
    and "\<And>tr c. c \<in> set cs \<Longrightarrow> \<not> fails e tr c"
  shows "calls e cs s = (Inr (), s\<lparr>trace := trace s @ map (\<lambda>c. Call c True) cs\<rparr>)"
  using assms(2,3)
proof (induction cs arbitrary: s)
  case Nil
  then show ?case by simp
next
  case (Cons c cs)
  have "dev_call e c s = (True, s\<lparr>trace := trace s @ [Call c True]\<rparr>)"
    using assms(1) Cons.prems by (intro dev_call_ok) simp_all
  moreover have "calls e cs (s\<lparr>trace := trace s @ [Call c True]\<rparr>) =
      (Inr (), s\<lparr>trace := trace s @ [Call c True]\<rparr>
        \<lparr>trace := trace (s\<lparr>trace := trace s @ [Call c True]\<rparr>) @ map (\<lambda>c. Call c True) cs\<rparr>)"
    using Cons.prems by (intro Cons.IH) simp_all
  ultimately show ?case by simp
qed

lemma set_gain_stages_ok:
  assumes "\<And>tr. tr \<noteq> [] \<Longrightarrow> \<not> sigint e tr" "trace s \<noteq> []"
    and "\<And>tr c. setup_call c \<Longrightarrow> \<not> fails e tr c"
  shows "set_gain_stages e ch stages s =
     s\<lparr>trace := trace s @
        map (\<lambda>stage. Call (SetGainStage ch stage
              (if sublist ''dsa'' (lower stage) then 0 else 60)) True) stages\<rparr>"
  using assms(2)
proof (induction stages arbitrary: s)
  case Nil
  then show ?case by simp
next
  case (Cons stage rest)
  have d: "dev_call e (SetGainStage ch stage v) s =
      (True, s\<lparr>trace := trace s @ [Call (SetGainStage ch stage v) True]\<rparr>)" for v
    using assms(1,3) Cons.prems by (intro dev_call_ok) simp_all
  have "set_gain_stages e ch rest (s\<lparr>trace := trace s @ [ev]\<rparr>) =
      s\<lparr>trace := trace s @ [ev]\<rparr>\<lparr>trace := trace (s\<lparr>trace := trace s @ [ev]\<rparr>) @
        map (\<lambda>stage. Call (SetGainStage ch stage
              (if sublist ''dsa'' (lower stage) then 0 else 60)) True) rest\<rparr>" for ev
    by (rule Cons.IH) simp
  then show ?case
    by (simp add: d Let_def contains_sublist)
qed

lemma configure_channel_ok:
  assumes "\<And>tr. tr \<noteq> [] \<Longrightarrow> \<not> sigint e tr" "trace s \<noteq> []"
    and "\<And>tr c. setup_call c \<Longrightarrow> \<not> fails e tr c"
  shows "configure_channel st e idx f g s =
     (Inr (CHANNEL_TX idx),
      s\<lparr>trace := trace s @
        map (\<lambda>c. Call c True)
          ([SetFrequency (CHANNEL_TX idx) f, GetFrequency (CHANNEL_TX idx),
            SetSampleRate (CHANNEL_TX idx) (SAMPLE_RATE_HZ st), GetSampleRate (CHANNEL_TX idx),
            SetBandwidth (CHANNEL_TX idx) (BANDWIDTH_HZ st), GetBandwidth (CHANNEL_TX idx),
            SetGain (CHANNEL_TX idx) g, GetGain (CHANNEL_TX idx),
            GetGainStages (CHANNEL_TX idx)] @
           map (\<lambda>stage. SetGainStage (CHANNEL_TX idx) stage
                  (if sublist ''dsa'' (lower stage) then 0 else 60))
             (stage_names e (CHANNEL_TX idx)) @
           [SetBiasTee (CHANNEL_TX idx) True])\<rparr>)"
proof -
  let ?ch = "CHANNEL_TX idx"
  let ?cs = "[SetFrequency ?ch f, GetFrequency ?ch,
              SetSampleRate ?ch (SAMPLE_RATE_HZ st), GetSampleRate ?ch,
              SetBandwidth ?ch (BANDWIDTH_HZ st), GetBandwidth ?ch,
              SetGain ?ch g, GetGain ?ch, GetGainStages ?ch]"
  let ?s1 = "s\<lparr>trace := trace s @ map (\<lambda>c. Call c True) ?cs\<rparr>"
  have 1: "calls e ?cs s = (Inr (), ?s1)"
    using assms by (intro calls_ok) auto
  let ?s2 = "?s1\<lparr>trace := trace ?s1 @
        map (\<lambda>stage. Call (SetGainStage ?ch stage
              (if sublist ''dsa'' (lower stage) then 0 else 60)) True) (stage_names e ?ch)\<rparr>"
  have 2: "set_gain_stages e ?ch (stage_names e ?ch) ?s1 = ?s2"
    using assms by (intro set_gain_stages_ok) simp_all
  have 3: "dev_call e (SetBiasTee ?ch True) ?s2 =
      (True, ?s2\<lparr>trace := trace ?s2 @ [Call (SetBiasTee ?ch True) True]\<rparr>)"
    by (intro dev_call_ok assms(1) assms(3)) simp_all
  show ?thesis
    unfolding configure_channel_def Let_def 1 prod.case sum.case 2 3 snd_conv
    by (simp add: comp_def)
qed
section \<open>The finally clause\<close>

lemma dev_call_trace:
  "\<exists>sg. set sg \<subseteq> {Sigint} \<and>
      trace (snd (dev_call e c s)) = trace s @ sg @ [Call c (fst (dev_call e c s))]"
proof (cases "sigint e (trace s)")
  case True
  then show ?thesis
    by (intro exI [of _ "[Sigint]"]) (simp add: dev_call_def deliver_def signal_handler_def Let_def)
next
  case False
  then show ?thesis
    by (intro exI [of _ "[]"]) (simp add: dev_call_def deliver_def Let_def)
qed

lemma finally_dual_trace:
  assumes "dev s"
  shows "\<exists>new. trace (finally_dual e s) = trace s @ new \<and>
      (\<exists>ok. Call (EnableModule (CHANNEL_TX 0) False) ok \<in> set new) \<and>
      ((\<exists>ok. Call (EnableModule (CHANNEL_TX 1) False) ok \<in> set new) \<longleftrightarrow>
         Call (EnableModule (CHANNEL_TX 0) False) True \<in> set new) \<and>
      ((\<exists>ok. Call Close ok \<in> set new) \<longleftrightarrow>
         Call (EnableModule (CHANNEL_TX 0) False) True \<in> set new \<and>
         Call (EnableModule (CHANNEL_TX 1) False) True \<in> set new)"
proof -
  let ?d0 = "EnableModule (CHANNEL_TX 0) False"
  let ?d1 = "EnableModule (CHANNEL_TX 1) False"
  obtain ok0 s1 where c0: "dev_call e ?d0 s = (ok0, s1)" by (cases "dev_call e ?d0 s")
  obtain ok1 s2 where c1: "dev_call e ?d1 s1 = (ok1, s2)" by (cases "dev_call e ?d1 s1")
  obtain ok2 s3 where c2: "dev_call e Close s2 = (ok2, s3)" by (cases "dev_call e Close s2")
  from dev_call_trace [of e ?d0 s] c0 obtain g0 where
    t0: "set g0 \<subseteq> {Sigint}" "trace s1 = trace s @ g0 @ [Call ?d0 ok0]" by auto
  from dev_call_trace [of e ?d1 s1] c1 obtain g1 where
    t1: "set g1 \<subseteq> {Sigint}" "trace s2 = trace s1 @ g1 @ [Call ?d1 ok1]" by auto
  from dev_call_trace [of e Close s2] c2 obtain g2 where
    t2: "set g2 \<subseteq> {Sigint}" "trace s3 = trace s2 @ g2 @ [Call Close ok2]" by auto
  show ?thesis
  proof (cases ok0)
    case False
    with assms c0 have "finally_dual e s = s1" by (simp add: finally_dual_def)
    with t0 False show ?thesis
      by (intro exI [of _ "g0 @ [Call ?d0 False]"]) auto
  next
    case ok0: True
    show ?thesis
    proof (cases ok1)
      case False
      with assms c0 c1 ok0 have "finally_dual e s = s2" by (simp add: finally_dual_def)
      with t0 t1 ok0 False show ?thesis
        by (intro exI [of _ "g0 @ [Call ?d0 True] @ g1 @ [Call ?d1 False]"]) auto
    next
      case True
      with assms c0 c1 c2 ok0 have "finally_dual e s = s3"
        by (cases ok2) (simp_all add: finally_dual_def)
      with t0 t1 t2 ok0 True show ?thesis
        by (intro exI [of _ "g0 @ [Call ?d0 True] @ g1 @ [Call ?d1 True] @ g2 @ [Call Close ok2]"])
          auto
    qed
  qed
qed

lemma finally_single_trace:
  assumes "dev s"
  shows "\<exists>new. trace (finally_single e s) = trace s @ new \<and>
      (\<exists>ok. Call (EnableModule (CHANNEL_TX 0) False) ok \<in> set new) \<and>
      ((\<exists>ok. Call Close ok \<in> set new) \<longleftrightarrow>
         Call (EnableModule (CHANNEL_TX 0) False) True \<in> set new)"
proof -
  let ?d0 = "EnableModule (CHANNEL_TX 0) False"
  obtain ok0 s1 where c0: "dev_call e ?d0 s = (ok0, s1)" by (cases "dev_call e ?d0 s")
  obtain ok2 s3 where c2: "dev_call e Close s1 = (ok2, s3)" by (cases "dev_call e Close s1")
  from dev_call_trace [of e ?d0 s] c0 obtain g0 where
    t0: "set g0 \<subseteq> {Sigint}" "trace s1 = trace s @ g0 @ [Call ?d0 ok0]" by auto
  from dev_call_trace [of e Close s1] c2 obtain g2 where
    t2: "set g2 \<subseteq> {Sigint}" "trace s3 = trace s1 @ g2 @ [Call Close ok2]" by auto
  show ?thesis
  proof (cases ok0)
    case False
    with assms c0 have "finally_single e s = s1" by (simp add: finally_single_def)
    with t0 False show ?thesis
      by (intro exI [of _ "g0 @ [Call ?d0 False]"]) auto
  next
    case True
    with assms c0 c2 have "finally_single e s = s3"
      by (cases ok2) (simp_all add: finally_single_def)
    with t0 t2 True show ?thesis
      by (intro exI [of _ "g0 @ [Call ?d0 True] @ g2 @ [Call Close ok2]"]) auto
  qed
qed

text \<open>
  Claim C6, as the code has it.  The \<^verbatim>\<open>finally\<close> clause never raises: the value \<^verbatim>\<open>main\<close>
  returns is decided by the \<^verbatim>\<open>try\<close> body alone.  Its steps run in order inside one
  guarded block, and the first step that raises ends the block: disabling channel 0 is
  always attempted once the device is open; disabling channel 1 is attempted exactly when
  disabling channel 0 succeeded; \<^verbatim>\<open>close\<close> is attempted exactly when every disable
  succeeded.  Without an open device the clause does nothing.
\<close>

theorem shutdown_one_guarded_block:
  "(dev s \<longrightarrow>
      (\<exists>new. trace (finally_dual e s) = trace s @ new \<and>
        (\<exists>ok. Call (EnableModule (CHANNEL_TX 0) False) ok \<in> set new) \<and>
        ((\<exists>ok. Call (EnableModule (CHANNEL_TX 1) False) ok \<in> set new) \<longleftrightarrow>
           Call (EnableModule (CHANNEL_TX 0) False) True \<in> set new) \<and>
        ((\<exists>ok. Call Close ok \<in> set new) \<longleftrightarrow>
           Call (EnableModule (CHANNEL_TX 0) False) True \<in> set new \<and>
           Call (EnableModule (CHANNEL_TX 1) False) True \<in> set new)) \<and>
      (\<exists>new. trace (finally_single e s) = trace s @ new \<and>
        (\<exists>ok. Call (EnableModule (CHANNEL_TX 0) False) ok \<in> set new) \<and>
        ((\<exists>ok. Call Close ok \<in> set new) \<longleftrightarrow>
           Call (EnableModule (CHANNEL_TX 0) False) True \<in> set new))) \<and>
   (\<not> dev s \<longrightarrow> finally_dual e s = s \<and> finally_single e s = s) \<and>
   fst (main_dual st e fuel) =
     (case fst (try_body_dual st e fuel (init e)) of
        None \<Rightarrow> None | Some (Inl x) \<Rightarrow> Some 1 | Some (Inr u) \<Rightarrow> Some 0) \<and>
   fst (main_single st e fuel) =
     (case fst (try_body_single st e fuel (init e)) of
        None \<Rightarrow> None | Some (Inl x) \<Rightarrow> Some 1 | Some (Inr u) \<Rightarrow> Some 0)"
proof -
  have "fst (main_dual st e fuel) =
     (case fst (try_body_dual st e fuel (init e)) of
        None \<Rightarrow> None | Some (Inl x) \<Rightarrow> Some 1 | Some (Inr u) \<Rightarrow> Some 0)"
    by (simp add: main_dual_def split: prod.splits option.splits sum.splits)
  moreover have "fst (main_single st e fuel) =
     (case fst (try_body_single st e fuel (init e)) of
        None \<Rightarrow> None | Some (Inl x) \<Rightarrow> Some 1 | Some (Inr u) \<Rightarrow> Some 0)"
    by (simp add: main_single_def split: prod.splits option.splits sum.splits)
  moreover have "\<not> dev s \<longrightarrow> finally_dual e s = s \<and> finally_single e s = s"
    by (simp add: finally_dual_def finally_single_def)
  ultimately show ?thesis
    using finally_dual_trace [of s e] finally_single_trace [of s e] by blast
qed
section \<open>The streaming loops\<close>

lemma advance_advance [simp]: "advance a (advance b g) = advance (a + b) g"
  by (simp add: advance_def add.assoc add.commute add.left_commute)

lemma length_generate_white_noise:
  assumes "generate_white_noise junk (int n) g = Inr (buf, g')"
  shows "length buf = 2 * n" and "g' = advance (2 * n) g"
  using assms unfolding generate_white_noise_nat
  by (auto simp: length_strided_fill mult_2)

lemma generate_white_noise_total:
  "\<exists>buf. generate_white_noise junk (int n) g = Inr (buf, advance (2 * n) g) \<and> length buf = 2 * n"
  unfolding generate_white_noise_nat by (simp add: length_strided_fill mult_2)

lemma interleave_dual_total:
  assumes "length ch0 = 2 * n" "length ch1 = 2 * n"
  shows "\<exists>d. interleave_dual junk n ch0 ch1 = Inr d \<and> length d = 4 * n"
  using interleave_dual_nth [OF assms, of junk] by blast

lemma tx_loop_dual_exit:
  assumes "\<not> sigint e (trace s)" "\<not> running s"
  shows "tx_loop_dual (Suc k) e n t s = (Some (Inr ()), s\<lparr>trace := trace s @ [Poll False]\<rparr>)"
  using assms by (simp add: deliver_quiet Let_def)

lemma tx_loop_single_exit:
  assumes "\<not> sigint e (trace s)" "\<not> running s"
  shows "tx_loop_single (Suc k) e n t buf s =
    (Some (Inr ()), s\<lparr>trace := trace s @ [Poll False]\<rparr>)"
  using assms by (simp add: deliver_quiet Let_def)

lemma dual_iteration:
  assumes "running s" "\<not> sigint e (trace s)" "\<not> sigint e (trace s @ [Poll True])"
  shows "\<exists>noise_ch0 g1 noise_ch1 dual_samples.
      generate_white_noise (heap_junk e) (int n) (rng_state s) = Inr (noise_ch0, g1) \<and>
      generate_white_noise (heap_junk e) (int n) g1 =
        Inr (noise_ch1, advance (4 * n) (rng_state s)) \<and>
      interleave_dual (heap_junk e) n noise_ch0 noise_ch1 = Inr dual_samples \<and>
      length dual_samples = 4 * n \<and>
      tx_loop_dual (Suc k) e n t s =
        (if fails e (trace s @ [Poll True]) (SyncTx dual_samples t)
         then (Some (Inl BladeRFError),
               s\<lparr>rng_state := advance (4 * n) (rng_state s),
                 trace := trace s @ [Poll True, Call (SyncTx dual_samples t) False]\<rparr>)
         else tx_loop_dual k e n t
               (s\<lparr>rng_state := advance (4 * n) (rng_state s),
                 trace := trace s @ [Poll True, Call (SyncTx dual_samples t) True]\<rparr>))"
proof -
  let ?g = "rng_state s"
  obtain b0 where b0: "generate_white_noise (heap_junk e) (int n) ?g = Inr (b0, advance (2 * n) ?g)"
    "length b0 = 2 * n"
    using generate_white_noise_total by blast
  obtain b1 where b1: "generate_white_noise (heap_junk e) (int n) (advance (2 * n) ?g) =
      Inr (b1, advance (2 * n) (advance (2 * n) ?g))" "length b1 = 2 * n"
    using generate_white_noise_total by blast
  have adv: "advance (2 * n) (advance (2 * n) ?g) = advance (4 * n) ?g" by simp
  obtain d where d: "interleave_dual (heap_junk e) n b0 b1 = Inr d" "length d = 4 * n"
    using interleave_dual_total [OF b0(2) b1(2)] by blast
  let ?s2 = "s\<lparr>trace := trace s @ [Poll True], rng_state := advance (4 * n) ?g\<rparr>"
  have q: "\<not> sigint e (trace ?s2)" using assms(3) by simp
  have loop: "tx_loop_dual (Suc k) e n t s =
      (case dev_call e (SyncTx d t) ?s2 of
         (False, s3) \<Rightarrow> (Some (Inl BladeRFError), s3)
       | (True, s3) \<Rightarrow> tx_loop_dual k e n t s3)"
    using assms(1,2) by (simp add: deliver_quiet Let_def b0 b1 [unfolded adv] d)
  have "tx_loop_dual (Suc k) e n t s =
        (if fails e (trace s @ [Poll True]) (SyncTx d t)
         then (Some (Inl BladeRFError),
               s\<lparr>rng_state := advance (4 * n) ?g,
                 trace := trace s @ [Poll True, Call (SyncTx d t) False]\<rparr>)
         else tx_loop_dual k e n t
               (s\<lparr>rng_state := advance (4 * n) ?g,
                 trace := trace s @ [Poll True, Call (SyncTx d t) True]\<rparr>))"
  proof (cases "fails e (trace s @ [Poll True]) (SyncTx d t)")
    case True
    then have "dev_call e (SyncTx d t) ?s2 =
        (False, ?s2\<lparr>trace := trace ?s2 @ [Call (SyncTx d t) False]\<rparr>)"
      using q by (intro dev_call_fail) simp_all
    with True show ?thesis unfolding loop by simp
  next
    case False
    then have "dev_call e (SyncTx d t) ?s2 =
        (True, ?s2\<lparr>trace := trace ?s2 @ [Call (SyncTx d t) True]\<rparr>)"
      using q by (intro dev_call_ok) simp_all
    with False show ?thesis unfolding loop by simp
  qed
  with b0 b1 [unfolded adv] d show ?thesis by blast
qed

lemma single_iteration:
  assumes "running s" "\<not> sigint e (trace s)" "\<not> sigint e (trace s @ [Poll True])"
  shows "\<exists>fresh.
      generate_white_noise (heap_junk e) (int n) (advance 1 (rng_state s)) =
        Inr (fresh, advance (2 * n + 1) (rng_state s)) \<and>
      length fresh = 2 * n \<and>
      tx_loop_single (Suc k) e n t noise_buffer s =
        (if fails e (trace s @ [Poll True]) (SyncTx noise_buffer t)
         then (Some (Inl BladeRFError),
               s\<lparr>trace := trace s @ [Poll True, Call (SyncTx noise_buffer t) False]\<rparr>)
         else if uniform_draw 0 100 (rng_state s 0) = 0
         then tx_loop_single k e n t fresh
               (s\<lparr>trace := trace s @ [Poll True, Call (SyncTx noise_buffer t) True],
                 rng_state := advance (2 * n + 1) (rng_state s)\<rparr>)
         else tx_loop_single k e n t noise_buffer
               (s\<lparr>trace := trace s @ [Poll True, Call (SyncTx noise_buffer t) True],
                 rng_state := advance 1 (rng_state s)\<rparr>))"
proof -
  let ?g = "rng_state s"
  obtain fresh where fr: "generate_white_noise (heap_junk e) (int n) (advance 1 ?g) =
      Inr (fresh, advance (2 * n) (advance 1 ?g))" "length fresh = 2 * n"
    using generate_white_noise_total by blast
  have adv: "advance (2 * n) (advance 1 ?g) = advance (2 * n + 1) ?g" by simp
  let ?s2 = "s\<lparr>trace := trace s @ [Poll True]\<rparr>"
  have q: "\<not> sigint e (trace ?s2)" using assms(3) by simp
  have loop: "tx_loop_single (Suc k) e n t noise_buffer s =
      (case dev_call e (SyncTx noise_buffer t) ?s2 of
         (False, s3) \<Rightarrow> (Some (Inl BladeRFError), s3)
       | (True, s3) \<Rightarrow>
           (case randint_scalar 0 100 (rng_state s3) of
              (d, g1) \<Rightarrow>
                if d = 0
                then (case generate_white_noise (heap_junk e) (int n) g1 of
                        Inl x \<Rightarrow> (Some (Inl x), s3\<lparr>rng_state := g1\<rparr>)
                      | Inr (fresh, g2) \<Rightarrow> tx_loop_single k e n t fresh (s3\<lparr>rng_state := g2\<rparr>))
                else tx_loop_single k e n t noise_buffer (s3\<lparr>rng_state := g1\<rparr>)))"
    using assms(1,2) by (simp add: deliver_quiet Let_def)
  have "tx_loop_single (Suc k) e n t noise_buffer s =
        (if fails e (trace s @ [Poll True]) (SyncTx noise_buffer t)
         then (Some (Inl BladeRFError),
               s\<lparr>trace := trace s @ [Poll True, Call (SyncTx noise_buffer t) False]\<rparr>)
         else if uniform_draw 0 100 (rng_state s 0) = 0
         then tx_loop_single k e n t fresh
               (s\<lparr>trace := trace s @ [Poll True, Call (SyncTx noise_buffer t) True],
                 rng_state := advance (2 * n + 1) ?g\<rparr>)
         else tx_loop_single k e n t noise_buffer
               (s\<lparr>trace := trace s @ [Poll True, Call (SyncTx noise_buffer t) True],
                 rng_state := advance 1 ?g\<rparr>))"
  proof (cases "fails e (trace s @ [Poll True]) (SyncTx noise_buffer t)")
    case True
    then have "dev_call e (SyncTx noise_buffer t) ?s2 =
        (False, ?s2\<lparr>trace := trace ?s2 @ [Call (SyncTx noise_buffer t) False]\<rparr>)"
      using q by (intro dev_call_fail) simp_all
    with True show ?thesis unfolding loop by simp
  next
    case False
    then have "dev_call e (SyncTx noise_buffer t) ?s2 =
        (True, ?s2\<lparr>trace := trace ?s2 @ [Call (SyncTx noise_buffer t) True]\<rparr>)"
      using q by (intro dev_call_ok) simp_all
    with False fr [unfolded adv] show ?thesis
      unfolding loop by (simp add: randint_scalar_def)
  qed
  with fr [unfolded adv] show ?thesis by blast
qed
lemma tx_loop_dual_summary:
  "case tx_loop_dual fuel e n t s of
     (None, s') \<Rightarrow> extends benign s s'
   | (Some (Inr u), s') \<Rightarrow> stops s s'
   | (Some (Inl x), s') \<Rightarrow> x = BladeRFError \<and> aborts s s'"
proof (induction fuel arbitrary: s)
  case 0
  then show ?case by simp
next
  case (Suc fuel)
  let ?s1 = "deliver e s"
  let ?s2 = "?s1\<lparr>trace := trace ?s1 @ [Poll (running ?s1)]\<rparr>"
  have e1: "extends benign s ?s1" by (rule extends_deliver) simp
  show ?case
  proof (cases "running ?s1")
    case False
    then have "stops s ?s2"
      unfolding stops_def using e1 by (intro exI [of _ ?s1]) simp
    with False show ?thesis by (simp add: Let_def)
  next
    case True
    then have "extends benign ?s1 ?s2" by (simp add: extends_event)
    with e1 have e2: "extends benign s ?s2" by (rule extends_trans)
    obtain b0 where b0: "generate_white_noise (heap_junk e) (int n) (rng_state ?s2) =
        Inr (b0, advance (2 * n) (rng_state ?s2))" "length b0 = 2 * n"
      using generate_white_noise_total by blast
    obtain b1 where b1: "generate_white_noise (heap_junk e) (int n) (advance (2 * n) (rng_state ?s2)) =
        Inr (b1, advance (2 * n) (advance (2 * n) (rng_state ?s2)))" "length b1 = 2 * n"
      using generate_white_noise_total by blast
    obtain d where d: "interleave_dual (heap_junk e) n b0 b1 = Inr d"
      using interleave_dual_total [OF b0(2) b1(2)] by blast
    let ?s2' = "?s2\<lparr>rng_state := advance (2 * n) (advance (2 * n) (rng_state ?s2))\<rparr>"
    obtain ok s3 where c: "dev_call e (SyncTx d t) ?s2' = (ok, s3)"
      by (cases "dev_call e (SyncTx d t) ?s2'")
    have loop: "tx_loop_dual (Suc fuel) e n t s =
        (if ok then tx_loop_dual fuel e n t s3 else (Some (Inl BladeRFError), s3))"
      using True b0 b1 d c by (simp add: Let_def del: advance_advance)
    show ?thesis
    proof (cases ok)
      case False
      with c have "aborts ?s2' s3"
        using aborts_dev_call [of "SyncTx d t" e ?s2'] by simp
      then have "aborts ?s2 s3" by simp
      with e2 have "aborts s s3" by (rule extends_aborts)
      with False show ?thesis unfolding loop by simp
    next
      case ok: True
      with c have "extends benign ?s2' s3"
        using extends_dev_call [of benign "SyncTx d t" e ?s2'] by simp
      then have "extends benign ?s2 s3" by simp
      with e2 have e3: "extends benign s s3" by (rule extends_trans)
      from Suc.IH [of s3] e3 ok show ?thesis
        unfolding loop
        by (auto split: prod.splits option.splits sum.splits
            intro: extends_trans extends_aborts extends_stops)
    qed
  qed
qed

lemma tx_loop_single_summary:
  "case tx_loop_single fuel e n t buf s of
     (None, s') \<Rightarrow> extends benign s s'
   | (Some (Inr u), s') \<Rightarrow> stops s s'
   | (Some (Inl x), s') \<Rightarrow> x = BladeRFError \<and> aborts s s'"
proof (induction fuel arbitrary: s buf)
  case 0
  then show ?case by simp
next
  case (Suc fuel)
  let ?s1 = "deliver e s"
  let ?s2 = "?s1\<lparr>trace := trace ?s1 @ [Poll (running ?s1)]\<rparr>"
  have e1: "extends benign s ?s1" by (rule extends_deliver) simp
  show ?case
  proof (cases "running ?s1")
    case False
    then have "stops s ?s2"
      unfolding stops_def using e1 by (intro exI [of _ ?s1]) simp
    with False show ?thesis by (simp add: Let_def)
  next
    case True
    then have "extends benign ?s1 ?s2" by (simp add: extends_event)
    with e1 have e2: "extends benign s ?s2" by (rule extends_trans)
    obtain ok s3 where c: "dev_call e (SyncTx buf t) ?s2 = (ok, s3)"
      by (cases "dev_call e (SyncTx buf t) ?s2")
    let ?g1 = "advance 1 (rng_state s3)"
    obtain fresh where fr: "generate_white_noise (heap_junk e) (int n) ?g1 =
        Inr (fresh, advance (2 * n) ?g1)"
      using generate_white_noise_total by blast
    have loop: "tx_loop_single (Suc fuel) e n t buf s =
        (if ok then
           (if uniform_draw 0 100 (rng_state s3 0) = 0
            then tx_loop_single fuel e n t fresh (s3\<lparr>rng_state := advance (2 * n) ?g1\<rparr>)
            else tx_loop_single fuel e n t buf (s3\<lparr>rng_state := ?g1\<rparr>))
         else (Some (Inl BladeRFError), s3))"
      using True c fr by (simp add: Let_def randint_scalar_def del: advance_advance)
    show ?thesis
    proof (cases ok)
      case False
      with c have "aborts ?s2 s3"
        using aborts_dev_call [of "SyncTx buf t" e ?s2] by simp
      with e2 have "aborts s s3" by (rule extends_aborts)
      with False show ?thesis unfolding loop by simp
    next
      case ok: True
      with c have "extends benign ?s2 s3"
        using extends_dev_call [of benign "SyncTx buf t" e ?s2] by simp
      with e2 have e3: "extends benign s s3" by (rule extends_trans)
      then have e4: "extends benign s (s3\<lparr>rng_state := g\<rparr>)" for g by simp
      show ?thesis
      proof (cases "uniform_draw 0 100 (rng_state s3 0) = 0")
        case True
        from Suc.IH [of "s3\<lparr>rng_state := advance (2 * n) ?g1\<rparr>" fresh] e4 ok True
        show ?thesis
          unfolding loop
          by (auto split: prod.splits option.splits sum.splits
              intro: extends_trans extends_aborts extends_stops)
      next
        case False
        from Suc.IH [of "s3\<lparr>rng_state := ?g1\<rparr>" buf] e4 ok False
        show ?thesis
          unfolding loop
          by (auto split: prod.splits option.splits sum.splits
              intro: extends_trans extends_aborts extends_stops)
      qed
    qed
  qed
qed

section \<open>The body of the try statement\<close>

lemma try_body_dual_open_failed:
  assumes "\<not> fst (dev_call e Open s)"
  shows "try_body_dual st e fuel s = (Some (Inl BladeRFError), snd (dev_call e Open s))"
  using assms by (cases "dev_call e Open s") (simp add: try_body_dual_def)

lemma try_body_single_open_failed:
  assumes "\<not> fst (dev_call e Open s)"
  shows "try_body_single st e fuel s = (Some (Inl BladeRFError), snd (dev_call e Open s))"
  using assms by (cases "dev_call e Open s") (simp add: try_body_single_def)

lemma try_body_dual_after_open:
  assumes "fst (dev_call e Open s)"
  defines "s1 \<equiv> (snd (dev_call e Open s))\<lparr>dev := True\<rparr>"
  shows "case try_body_dual st e fuel s of
     (None, s') \<Rightarrow> extends benign s1 s'
   | (Some (Inr u), s') \<Rightarrow> stops s1 s'
   | (Some (Inl x), s') \<Rightarrow> aborts s1 s'"
proof -
  obtain r2 s2 where c2: "configure_channel st e 0 (FREQ1_HZ st) (TX_GAIN1_DB st) s1 = (r2, s2)"
    by (cases "configure_channel st e 0 (FREQ1_HZ st) (TX_GAIN1_DB st) s1")
  have body: "try_body_dual st e fuel s =
     (case (r2, s2) of
        (Inl x, s2) \<Rightarrow> (Some (Inl x), s2)
      | (Inr ch0, s2) \<Rightarrow>
     (case configure_channel st e 1 (FREQ2_HZ st) (TX_GAIN2_DB st) s2 of
        (Inl x, s3) \<Rightarrow> (Some (Inl x), s3)
      | (Inr ch1, s3) \<Rightarrow>
     (case calls e [SyncConfig TX_X2 (NUM_BUFFERS st) (BUFFER_SIZE st) (NUM_TRANSFERS st)
                      (TIMEOUT_MS st),
                    EnableModule ch0 True, EnableModule ch1 True] s3 of
        (Inl x, s4) \<Rightarrow> (Some (Inl x), s4)
      | (Inr _, s4) \<Rightarrow> tx_loop_dual fuel e (BUFFER_SIZE st) (TIMEOUT_MS st) s4)))"
    using assms(1) c2 unfolding s1_def
    by (cases "dev_call e Open s") (simp add: try_body_dual_def)
  from configure_channel_summary [where st = st and e = e and idx = 0 and f = "FREQ1_HZ st"
      and g = "TX_GAIN1_DB st" and s = s1] c2
  have sum2: "case r2 of Inr ch \<Rightarrow> ch = CHANNEL_TX 0 \<and> extends benign s1 s2
                | Inl x \<Rightarrow> aborts s1 s2"
    by (auto split: sum.splits)
  show ?thesis
  proof (cases r2)
    case (Inl x)
    with sum2 show ?thesis unfolding body by simp
  next
    case (Inr ch0)
    with sum2 have ch0: "ch0 = CHANNEL_TX 0" and e2: "extends benign s1 s2" by simp_all
    obtain r3 s3 where c3: "configure_channel st e 1 (FREQ2_HZ st) (TX_GAIN2_DB st) s2 = (r3, s3)"
      by (cases "configure_channel st e 1 (FREQ2_HZ st) (TX_GAIN2_DB st) s2")
    from configure_channel_summary [where st = st and e = e and idx = 1 and f = "FREQ2_HZ st"
        and g = "TX_GAIN2_DB st" and s = s2] c3
    have sum3: "case r3 of Inr ch \<Rightarrow> ch = CHANNEL_TX 1 \<and> extends benign s2 s3
                  | Inl x \<Rightarrow> aborts s2 s3"
      by (auto split: sum.splits)
    show ?thesis
    proof (cases r3)
      case (Inl x)
      with sum3 e2 have "aborts s1 s3" by (auto intro: extends_aborts)
      with Inl Inr c3 show ?thesis unfolding body by simp
    next
      case r3: (Inr ch1)
      with sum3 e2 have e3: "extends benign s1 s3" by (auto intro: extends_trans)
      let ?cs = "[SyncConfig TX_X2 (NUM_BUFFERS st) (BUFFER_SIZE st) (NUM_TRANSFERS st)
                      (TIMEOUT_MS st), EnableModule ch0 True, EnableModule ch1 True]"
      obtain r4 s4 where c4: "calls e ?cs s3 = (r4, s4)" by (cases "calls e ?cs s3")
      have "case calls e ?cs s3 of (Inr u, s') \<Rightarrow> extends benign s3 s'
          | (Inl x, s') \<Rightarrow> x = BladeRFError \<and> aborts s3 s'"
        by (rule calls_fatal) simp
      with c4 have sum4: "case r4 of Inr u \<Rightarrow> extends benign s3 s4 | Inl x \<Rightarrow> aborts s3 s4"
        by (auto split: sum.splits)
      show ?thesis
      proof (cases r4)
        case (Inl x)
        with sum4 e3 have "aborts s1 s4" by (auto intro: extends_aborts)
        with Inl Inr r3 c3 c4 show ?thesis unfolding body by simp
      next
        case r4: (Inr u)
        with sum4 e3 have e4: "extends benign s1 s4" by (auto intro: extends_trans)
        from tx_loop_dual_summary [where fuel = fuel and e = e and n = "BUFFER_SIZE st"
            and t = "TIMEOUT_MS st" and s = s4] e4
        have "case tx_loop_dual fuel e (BUFFER_SIZE st) (TIMEOUT_MS st) s4 of
             (None, s') \<Rightarrow> extends benign s1 s'
           | (Some (Inr u), s') \<Rightarrow> stops s1 s'
           | (Some (Inl x), s') \<Rightarrow> aborts s1 s'"
          by (auto split: prod.splits option.splits sum.splits
              intro: extends_trans extends_aborts extends_stops)
        with Inr r3 r4 c3 c4 show ?thesis unfolding body by simp
      qed
    qed
  qed
qed

lemma try_body_single_after_open:
  assumes "fst (dev_call e Open s)"
  defines "s1 \<equiv> (snd (dev_call e Open s))\<lparr>dev := True\<rparr>"
  shows "case try_body_single st e fuel s of
     (None, s') \<Rightarrow> extends benign s1 s'
   | (Some (Inr u), s') \<Rightarrow> stops s1 s'
   | (Some (Inl x), s') \<Rightarrow> aborts s1 s'"
proof -
  let ?ch = "CHANNEL_TX 0"
  let ?cs = "[SetFrequency ?ch (FREQ1_HZ st), GetFrequency ?ch,
              SetSampleRate ?ch (SAMPLE_RATE_HZ st), GetSampleRate ?ch,
              SetBandwidth ?ch (BANDWIDTH_HZ st), GetBandwidth ?ch,
              GetGainStages ?ch, SetGain ?ch (TX_GAIN1_DB st), GetGain ?ch]"
  obtain r2 s2 where c2: "calls e ?cs s1 = (r2, s2)" by (cases "calls e ?cs s1")
  let ?s3 = "set_gain_stages e ?ch (stage_names e ?ch) s2"
  let ?s4 = "snd (dev_call e (SetBiasTee ?ch True) ?s3)"
  let ?cs2 = "[SyncConfig TX_X1 (NUM_BUFFERS st) (BUFFER_SIZE st) (NUM_TRANSFERS st)
                (TIMEOUT_MS st), EnableModule ?ch True]"
  have body0: "try_body_single st e fuel s =
     (case calls e ?cs s1 of
        (Inl x, s2) \<Rightarrow> (Some (Inl x), s2)
      | (Inr _, s2) \<Rightarrow>
         (case calls e ?cs2
                 (snd (dev_call e (SetBiasTee ?ch True)
                    (set_gain_stages e ?ch (stage_names e ?ch) s2))) of
            (Inl x, s5) \<Rightarrow> (Some (Inl x), s5)
          | (Inr _, s5) \<Rightarrow>
             (case generate_white_noise (heap_junk e) (int (BUFFER_SIZE st)) (rng_state s5) of
                Inl x \<Rightarrow> (Some (Inl x), s5)
              | Inr (noise_buffer, g1) \<Rightarrow>
                  tx_loop_single fuel e (BUFFER_SIZE st) (TIMEOUT_MS st) noise_buffer
                    (s5\<lparr>rng_state := g1\<rparr>))))"
    using assms(1) unfolding s1_def try_body_single_def Let_def
    by (cases "dev_call e Open s") (simp del: calls.simps)
  have body: "try_body_single st e fuel s =
     (case r2 of
        Inl x \<Rightarrow> (Some (Inl x), s2)
      | Inr _ \<Rightarrow>
         (case calls e ?cs2 ?s4 of
            (Inl x, s5) \<Rightarrow> (Some (Inl x), s5)
          | (Inr _, s5) \<Rightarrow>
             (case generate_white_noise (heap_junk e) (int (BUFFER_SIZE st)) (rng_state s5) of
                Inl x \<Rightarrow> (Some (Inl x), s5)
              | Inr (noise_buffer, g1) \<Rightarrow>
                  tx_loop_single fuel e (BUFFER_SIZE st) (TIMEOUT_MS st) noise_buffer
                    (s5\<lparr>rng_state := g1\<rparr>))))"
    unfolding body0 c2 by simp
  have "case calls e ?cs s1 of (Inr u, s') \<Rightarrow> extends benign s1 s'
      | (Inl x, s') \<Rightarrow> x = BladeRFError \<and> aborts s1 s'"
    by (rule calls_fatal) simp
  with c2 have sum2: "case r2 of Inr u \<Rightarrow> extends benign s1 s2 | Inl x \<Rightarrow> aborts s1 s2"
    by (auto split: sum.splits)
  show ?thesis
  proof (cases r2)
    case (Inl x)
    with sum2 show ?thesis unfolding body by simp
  next
    case (Inr u)
    with sum2 have e2: "extends benign s1 s2" by simp
    have "extends benign s2 ?s3" by (rule set_gain_stages_benign)
    moreover have "extends benign ?s3 ?s4" by (rule extends_dev_call) simp_all
    ultimately have e4: "extends benign s1 ?s4"
      using e2 by (blast intro: extends_trans)
    obtain r5 s5 where c5: "calls e ?cs2 ?s4 = (r5, s5)" by (cases "calls e ?cs2 ?s4")
    have "case calls e ?cs2 ?s4 of (Inr u, s') \<Rightarrow> extends benign ?s4 s'
        | (Inl x, s') \<Rightarrow> x = BladeRFError \<and> aborts ?s4 s'"
      by (rule calls_fatal) simp
    with c5 have sum5: "case r5 of Inr u \<Rightarrow> extends benign ?s4 s5 | Inl x \<Rightarrow> aborts ?s4 s5"
      by (auto split: sum.splits)
    show ?thesis
    proof (cases r5)
      case (Inl x)
      with sum5 e4 have "aborts s1 s5" by (auto intro: extends_aborts)
      with Inl Inr c5 show ?thesis unfolding body by simp
    next
      case r5: (Inr v)
      with sum5 e4 have e5: "extends benign s1 s5" by (auto intro: extends_trans)
      obtain buf where buf: "generate_white_noise (heap_junk e) (int (BUFFER_SIZE st)) (rng_state s5) =
          Inr (buf, advance (2 * BUFFER_SIZE st) (rng_state s5))"
        using generate_white_noise_total by blast
      let ?s6 = "s5\<lparr>rng_state := advance (2 * BUFFER_SIZE st) (rng_state s5)\<rparr>"
      from e5 have e6: "extends benign s1 ?s6" by simp
      from tx_loop_single_summary [where fuel = fuel and e = e and n = "BUFFER_SIZE st"
          and t = "TIMEOUT_MS st" and buf = buf and s = ?s6] e6
      have "case tx_loop_single fuel e (BUFFER_SIZE st) (TIMEOUT_MS st) buf ?s6 of
           (None, s') \<Rightarrow> extends benign s1 s'
         | (Some (Inr u), s') \<Rightarrow> stops s1 s'
         | (Some (Inl x), s') \<Rightarrow> aborts s1 s'"
        by (auto split: prod.splits option.splits sum.splits
            intro: extends_trans extends_aborts extends_stops)
      with Inr r5 c5 buf show ?thesis unfolding body by simp
    qed
  qed
qed
section \<open>The outcome of a run\<close>

lemma benign_no_fatal:
  assumes "list_all benign xs" "fatal c"
  shows "Call c False \<notin> set xs"
  using assms by (auto simp: list_all_iff)

lemma benign_no_poll:
  assumes "list_all benign xs"
  shows "Poll False \<notin> set xs"
  using assms by (auto simp: list_all_iff)

lemma extendsD:
  assumes "extends P s s'"
  shows "\<exists>new. trace s' = trace s @ new \<and> list_all P new" and "dev s' = dev s"
proof -
  from assms obtain new where "trace s' = trace s @ new" "list_all P new" and d: "dev s' = dev s"
    unfolding extends_def by (elim conjE exE)
  then show "\<exists>new. trace s' = trace s @ new \<and> list_all P new" by (intro exI [of _ new]) simp
  from d show "dev s' = dev s" .
qed

lemma abortsD:
  assumes "aborts s s'"
  shows "\<exists>new c. trace s' = trace s @ new @ [Call c False] \<and> list_all benign new \<and> fatal c"
    and "dev s' = dev s"
proof -
  from assms obtain mid c where m: "extends benign s mid" "fatal c"
    "trace s' = trace mid @ [Call c False]" "dev s' = dev mid"
    unfolding aborts_def by (elim conjE exE)
  from extendsD [OF m(1)] obtain new where "trace mid = trace s @ new" "list_all benign new"
    and "dev mid = dev s" by blast
  with m show "\<exists>new c. trace s' = trace s @ new @ [Call c False] \<and> list_all benign new \<and> fatal c"
    and "dev s' = dev s" by auto
qed

lemma stopsD:
  assumes "stops s s'"
  shows "\<exists>new. trace s' = trace s @ new @ [Poll False] \<and> list_all benign new"
    and "dev s' = dev s"
proof -
  from assms obtain mid where m: "extends benign s mid"
    "trace s' = trace mid @ [Poll False]" "dev s' = dev mid"
    unfolding stops_def by (elim conjE exE)
  from extendsD [OF m(1)] obtain new where "trace mid = trace s @ new" "list_all benign new"
    and "dev mid = dev s" by blast
  with m show "\<exists>new. trace s' = trace s @ new @ [Poll False] \<and> list_all benign new"
    and "dev s' = dev s" by auto
qed

lemma finally_dual_post:
  assumes "dev s"
  shows "\<exists>post. trace (finally_dual e s) = trace s @ post \<and> list_all benign post \<and>
           (\<exists>b. Call (EnableModule (CHANNEL_TX 0) False) b \<in> set post)"
proof -
  have "extends benign s (snd (calls e [EnableModule (CHANNEL_TX 0) False,
      EnableModule (CHANNEL_TX 1) False, Close] s))"
    by (rule calls_nonfatal) simp
  from extendsD(1) [OF this] assms
  obtain p1 where p1: "trace (finally_dual e s) = trace s @ p1" "list_all benign p1"
    unfolding finally_dual_def by auto
  from finally_dual_trace [OF assms, of e] obtain p2 where
    p2: "trace (finally_dual e s) = trace s @ p2"
      "\<exists>b. Call (EnableModule (CHANNEL_TX 0) False) b \<in> set p2"
    by blast
  from p1(1) p2(1) have "p1 = p2" by simp
  with p1 p2 show ?thesis by blast
qed

lemma finally_single_post:
  assumes "dev s"
  shows "\<exists>post. trace (finally_single e s) = trace s @ post \<and> list_all benign post \<and>
           (\<exists>b. Call (EnableModule (CHANNEL_TX 0) False) b \<in> set post)"
proof -
  have "extends benign s (snd (calls e [EnableModule (CHANNEL_TX 0) False, Close] s))"
    by (rule calls_nonfatal) simp
  from extendsD(1) [OF this] assms
  obtain p1 where p1: "trace (finally_single e s) = trace s @ p1" "list_all benign p1"
    unfolding finally_single_def by auto
  from finally_single_trace [OF assms, of e] obtain p2 where
    p2: "trace (finally_single e s) = trace s @ p2"
      "\<exists>b. Call (EnableModule (CHANNEL_TX 0) False) b \<in> set p2"
    by blast
  from p1(1) p2(1) have "p1 = p2" by simp
  with p1 p2 show ?thesis by blast
qed

lemma outcome_generic:
  fixes rb :: "(exn + unit) option"
  assumes tr1: "trace s1 = sg @ [Call Open ok]" "set sg \<subseteq> {Sigint}" "trace s1' = trace s1"
    and fail: "\<not> ok \<Longrightarrow> rb = Some (Inl BladeRFError) \<and> sf = s1"
    and succ: "ok \<Longrightarrow> (case rb of None \<Rightarrow> extends benign s1' sb
                    | Some (Inr u) \<Rightarrow> stops s1' sb
                    | Some (Inl x) \<Rightarrow> aborts s1' sb)"
    and fin: "ok \<Longrightarrow> rb \<noteq> None \<Longrightarrow>
        \<exists>post. trace sf = trace sb @ post \<and> list_all benign post \<and>
           (\<exists>b. Call (EnableModule (CHANNEL_TX 0) False) b \<in> set post)"
    and none: "ok \<Longrightarrow> rb = None \<Longrightarrow> sf = sb"
    and rc: "rc = (case rb of None \<Rightarrow> None | Some (Inl x) \<Rightarrow> Some (1::int) | Some (Inr u) \<Rightarrow> Some 0)"
  shows "(rc = Some 1 \<longleftrightarrow> (\<exists>c. fatal c \<and> Call c False \<in> set (trace sf))) \<and>
         (rc = Some 0 \<longleftrightarrow> Poll False \<in> set (trace sf)) \<and>
         (rc = Some 1 \<longrightarrow>
            (\<exists>pre c post. trace sf = pre @ [Call c False] @ post \<and> fatal c \<and>
               (Call Open True \<in> set pre \<longrightarrow>
                  (\<exists>b. Call (EnableModule (CHANNEL_TX 0) False) b \<in> set post)) \<and>
               (Call Open True \<notin> set pre \<longrightarrow> c = Open \<and> post = [])))"
proof (cases ok)
  case False
  with fail tr1 have sf: "trace sf = sg @ [Call Open False]" and rc1: "rc = Some 1"
    by (simp_all add: rc)
  have nosg: "Call c b \<notin> set sg" "Poll b \<notin> set sg" for c b
    using tr1(2) by auto
  have A: "\<exists>c. fatal c \<and> Call c False \<in> set (trace sf)"
    unfolding sf by (intro exI [of _ Open]) simp
  have B: "Poll False \<notin> set (trace sf)"
    unfolding sf using nosg by simp
  have C: "\<exists>pre c post. trace sf = pre @ [Call c False] @ post \<and> fatal c \<and>
               (Call Open True \<in> set pre \<longrightarrow>
                  (\<exists>b. Call (EnableModule (CHANNEL_TX 0) False) b \<in> set post)) \<and>
               (Call Open True \<notin> set pre \<longrightarrow> c = Open \<and> post = [])"
    using sf nosg by (intro exI [of _ sg] exI [of _ Open] exI [of _ "[]"]) simp
  from rc1 A B C show ?thesis by simp
next
  case True
  have bsg: "list_all benign (sg @ [Call Open True])"
    using tr1(2) by (auto simp: list_all_iff)
  show ?thesis
  proof (cases rb)
    case None
    with succ True none have "extends benign s1' sf" by simp
    from extendsD(1) [OF this] obtain new where "trace sf = trace s1' @ new" "list_all benign new"
      by blast
    with tr1 True bsg have sf: "trace sf = (sg @ [Call Open True]) @ new"
      "list_all benign ((sg @ [Call Open True]) @ new)"
      by simp_all
    from None have "rc = None" by (simp add: rc)
    moreover have "\<not> (\<exists>c. fatal c \<and> Call c False \<in> set (trace sf))"
      unfolding sf(1) using benign_no_fatal [OF sf(2)] by blast
    moreover have "Poll False \<notin> set (trace sf)"
      unfolding sf(1) using benign_no_poll [OF sf(2)] .
    ultimately show ?thesis by simp
  next
    case (Some r)
    from fin True Some obtain post where post: "trace sf = trace sb @ post"
      "list_all benign post" "\<exists>b. Call (EnableModule (CHANNEL_TX 0) False) b \<in> set post"
      by blast
    show ?thesis
    proof (cases r)
      case (Inr u)
      with succ True Some have "stops s1' sb" by simp
      from stopsD(1) [OF this] obtain new where
        "trace sb = trace s1' @ new @ [Poll False]" "list_all benign new"
        by blast
      with tr1 True bsg post have sf: "trace sf = ((sg @ [Call Open True]) @ new) @ [Poll False] @ post"
        and ben: "list_all benign (((sg @ [Call Open True]) @ new) @ post)"
        by simp_all
      from Some Inr have "rc = Some 0" by (simp add: rc)
      moreover have "\<not> (\<exists>c. fatal c \<and> Call c False \<in> set (trace sf))"
        unfolding sf using benign_no_fatal [OF ben] by auto
      moreover have "Poll False \<in> set (trace sf)"
        unfolding sf by simp
      ultimately show ?thesis by simp
    next
      case (Inl x)
      with succ True Some have "aborts s1' sb" by simp
      from abortsD(1) [OF this] obtain new c where
        m: "trace sb = trace s1' @ new @ [Call c False]" "list_all benign new" "fatal c"
        by blast
      let ?pre = "(sg @ [Call Open True]) @ new"
      from m tr1 True post have sf: "trace sf = ?pre @ [Call c False] @ post"
        by simp
      from m bsg post have ben: "list_all benign (?pre @ post)" by simp
      from Some Inl have "rc = Some 1" by (simp add: rc)
      moreover have "\<exists>c. fatal c \<and> Call c False \<in> set (trace sf)"
        unfolding sf using m(3) by (intro exI [of _ c]) simp
      moreover have "Poll False \<notin> set (trace sf)"
        unfolding sf using benign_no_poll [OF ben] by simp
      moreover have "\<exists>pre c post. trace sf = pre @ [Call c False] @ post \<and> fatal c \<and>
               (Call Open True \<in> set pre \<longrightarrow>
                  (\<exists>b. Call (EnableModule (CHANNEL_TX 0) False) b \<in> set post)) \<and>
               (Call Open True \<notin> set pre \<longrightarrow> c = Open \<and> post = [])"
        using sf m(3) post(3) by (intro exI [of _ ?pre] exI [of _ c] exI [of _ post]) simp
      ultimately show ?thesis by simp
    qed
  qed
qed
lemma trace_init [simp]: "trace (init e) = []" "dev (init e) = False" "running (init e) = True"
  "rng_state (init e) = entropy e"
  by (simp_all add: init_def)

lemma main_dual_outcome:
  "(fst (main_dual st e fuel) = Some 1 \<longleftrightarrow>
      (\<exists>c. fatal c \<and> Call c False \<in> set (trace (snd (main_dual st e fuel))))) \<and>
   (fst (main_dual st e fuel) = Some 0 \<longleftrightarrow>
      Poll False \<in> set (trace (snd (main_dual st e fuel)))) \<and>
   (fst (main_dual st e fuel) = Some 1 \<longrightarrow>
      (\<exists>pre c post. trace (snd (main_dual st e fuel)) = pre @ [Call c False] @ post \<and> fatal c \<and>
         (Call Open True \<in> set pre \<longrightarrow>
            (\<exists>b. Call (EnableModule (CHANNEL_TX 0) False) b \<in> set post)) \<and>
         (Call Open True \<notin> set pre \<longrightarrow> c = Open \<and> post = [])))"
proof -
  let ?s1 = "snd (dev_call e Open (init e))"
  let ?ok = "fst (dev_call e Open (init e))"
  let ?s1' = "?s1\<lparr>dev := True\<rparr>"
  let ?b = "try_body_dual st e fuel (init e)"
  from dev_call_trace [of e Open "init e"] obtain sg where
    sg: "set sg \<subseteq> {Sigint}" "trace ?s1 = sg @ [Call Open ?ok]" by auto
  have t1': "trace ?s1' = trace ?s1" by simp
  have fail: "fst ?b = Some (Inl BladeRFError) \<and> snd (main_dual st e fuel) = ?s1" if "\<not> ?ok"
    using that try_body_dual_open_failed [of e "init e" st fuel]
    by (simp add: main_dual_def finally_dual_def)
  have succ: "case fst ?b of None \<Rightarrow> extends benign ?s1' (snd ?b)
      | Some (Inr u) \<Rightarrow> stops ?s1' (snd ?b)
      | Some (Inl x) \<Rightarrow> aborts ?s1' (snd ?b)" if "?ok"
    using try_body_dual_after_open [OF that, of st fuel]
    by (auto split: prod.splits option.splits sum.splits)
  have devb: "dev (snd ?b)" if "?ok" "fst ?b \<noteq> None"
    using succ [OF that(1)] that(2) extendsD(2) abortsD(2) stopsD(2)
    by (fastforce split: option.splits sum.splits)
  have fin: "\<exists>post. trace (snd (main_dual st e fuel)) = trace (snd ?b) @ post \<and>
      list_all benign post \<and> (\<exists>b. Call (EnableModule (CHANNEL_TX 0) False) b \<in> set post)"
    if "?ok" "fst ?b \<noteq> None"
  proof -
    from that(2) have "snd (main_dual st e fuel) = finally_dual e (snd ?b)"
      by (auto simp: main_dual_def split: prod.splits option.splits sum.splits)
    with finally_dual_post [OF devb [OF that], of e] show ?thesis by simp
  qed
  have none: "snd (main_dual st e fuel) = snd ?b" if "fst ?b = None"
    using that by (auto simp: main_dual_def split: prod.splits option.splits sum.splits)
  have rc: "fst (main_dual st e fuel) =
      (case fst ?b of None \<Rightarrow> None | Some (Inl x) \<Rightarrow> Some 1 | Some (Inr u) \<Rightarrow> Some 0)"
    by (simp add: main_dual_def split: prod.splits option.splits sum.splits)
  show ?thesis
    by (rule outcome_generic [OF sg(2) sg(1) t1' fail succ fin none rc])
qed

lemma main_single_outcome:
  "(fst (main_single st e fuel) = Some 1 \<longleftrightarrow>
      (\<exists>c. fatal c \<and> Call c False \<in> set (trace (snd (main_single st e fuel))))) \<and>
   (fst (main_single st e fuel) = Some 0 \<longleftrightarrow>
      Poll False \<in> set (trace (snd (main_single st e fuel)))) \<and>
   (fst (main_single st e fuel) = Some 1 \<longrightarrow>
      (\<exists>pre c post. trace (snd (main_single st e fuel)) = pre @ [Call c False] @ post \<and> fatal c \<and>
         (Call Open True \<in> set pre \<longrightarrow>
            (\<exists>b. Call (EnableModule (CHANNEL_TX 0) False) b \<in> set post)) \<and>
         (Call Open True \<notin> set pre \<longrightarrow> c = Open \<and> post = [])))"
proof -
  let ?s1 = "snd (dev_call e Open (init e))"
  let ?ok = "fst (dev_call e Open (init e))"
  let ?s1' = "?s1\<lparr>dev := True\<rparr>"
  let ?b = "try_body_single st e fuel (init e)"
  from dev_call_trace [of e Open "init e"] obtain sg where
    sg: "set sg \<subseteq> {Sigint}" "trace ?s1 = sg @ [Call Open ?ok]" by auto
  have t1': "trace ?s1' = trace ?s1" by simp
  have fail: "fst ?b = Some (Inl BladeRFError) \<and> snd (main_single st e fuel) = ?s1" if "\<not> ?ok"
    using that try_body_single_open_failed [of e "init e" st fuel]
    by (simp add: main_single_def finally_single_def)
  have succ: "case fst ?b of None \<Rightarrow> extends benign ?s1' (snd ?b)
      | Some (Inr u) \<Rightarrow> stops ?s1' (snd ?b)
      | Some (Inl x) \<Rightarrow> aborts ?s1' (snd ?b)" if "?ok"
    using try_body_single_after_open [OF that, of st fuel]
    by (auto split: prod.splits option.splits sum.splits)
  have devb: "dev (snd ?b)" if "?ok" "fst ?b \<noteq> None"
    using succ [OF that(1)] that(2) extendsD(2) abortsD(2) stopsD(2)
    by (fastforce split: option.splits sum.splits)
  have fin: "\<exists>post. trace (snd (main_single st e fuel)) = trace (snd ?b) @ post \<and>
      list_all benign post \<and> (\<exists>b. Call (EnableModule (CHANNEL_TX 0) False) b \<in> set post)"
    if "?ok" "fst ?b \<noteq> None"
  proof -
    from that(2) have "snd (main_single st e fuel) = finally_single e (snd ?b)"
      by (auto simp: main_single_def split: prod.splits option.splits sum.splits)
    with finally_single_post [OF devb [OF that], of e] show ?thesis by simp
  qed
  have none: "snd (main_single st e fuel) = snd ?b" if "fst ?b = None"
    using that by (auto simp: main_single_def split: prod.splits option.splits sum.splits)
  have rc: "fst (main_single st e fuel) =
      (case fst ?b of None \<Rightarrow> None | Some (Inl x) \<Rightarrow> Some 1 | Some (Inr u) \<Rightarrow> Some 0)"
    by (simp add: main_single_def split: prod.splits option.splits sum.splits)
  show ?thesis
    by (rule outcome_generic [OF sg(2) sg(1) t1' fail succ fin none rc])
qed
end
